theory Spec2Isabelle
  imports Main "HOL-Library.Word"
begin

section \<open>Data model\<close>

text \<open>
  Bytes are \<open>uint8_t\<close>, modelled as 8-bit words (increments wrap as in the source).
  Values of type \<open>size_t\<close> only count bytes of the input and of the output; they are
  bounded by twice the input length plus one, so they are modelled as \<open>nat\<close>.
  A \<open>std::span<const uint8_t>\<close> is the list of its bytes; a pointer into the input span is
  an index into that list (callback encoder) or the list of bytes from the pointer to the end.
\<close>

type_synonym u8 = "8 word"

text \<open>
  One invocation \<open>cb(data, size)\<close> of an encoder callback (concept \<open>CobsEncodeCb\<close>) is
  recorded as the \<open>size\<close> bytes starting at \<open>data\<close>.
\<close>

type_synonym enc_call = "u8 list"

text \<open>
  One invocation \<open>cb(data, size, left)\<close> of a decoder callback (concept \<open>CobsDecodeCb\<close>):
  the bytes \<open>data[0..size)\<close> (\<open>None\<close> when \<open>data\<close> is \<open>nullptr\<close>), \<open>size\<close> and \<open>left\<close>.
\<close>

type_synonym dec_call = "u8 list option \<times> nat \<times> nat"

section \<open>Bulk encoder, callback variant\<close>

text \<open>
  The lambda \<open>write_chunk\<close> of \<open>cobs_encode\<close>: it reads the captured \<open>chunk\<close> and \<open>code\<close>,
  invokes the callback with the code byte and with the span \<open>[chunk, p)\<close> of the input, and
  adds \<open>1 + chunk_size\<close> to \<open>total\<close> (here \<open>total_n\<close>). The pair \<open>(calls, total_n)\<close> is
  the state it changes.
\<close>

definition write_chunk ::
  "u8 list \<Rightarrow> nat \<Rightarrow> u8 \<Rightarrow> nat \<Rightarrow> enc_call list \<times> nat \<Rightarrow> enc_call list \<times> nat" where
  "write_chunk inp chunk code p st =
     (case st of (calls, total_n) \<Rightarrow>
        let chunk_size = p - chunk in
        (calls @ [[code], take chunk_size (drop chunk inp)], total_n + (1 + chunk_size)))"

text \<open>
  The \<open>for\<close> loop of \<open>cobs_encode\<close>; \<open>src_dat\<close> and \<open>chunk\<close> are indices into \<open>inp\<close>,
  \<open>src_end\<close> is \<open>length inp\<close>. The result is the state at loop exit.
\<close>

function encode_loop ::
  "u8 list \<Rightarrow> nat \<Rightarrow> nat \<Rightarrow> u8 \<Rightarrow> enc_call list \<times> nat \<Rightarrow> nat \<times> u8 \<times> (enc_call list \<times> nat)" where
  "encode_loop inp src_dat chunk code st =
     (if src_dat < length inp then
        (let (chunk1, code1, st1) =
               (if code = 0xff then (src_dat, 1, write_chunk inp chunk code src_dat st)
                else (chunk, code, st))
         in if inp ! src_dat = 0
            then encode_loop inp (src_dat + 1) (src_dat + 1) 1 (write_chunk inp chunk1 code1 src_dat st1)
            else encode_loop inp (src_dat + 1) chunk1 (code1 + 1) st1)
      else (chunk, code, st))"
  by pat_completeness auto
termination
  by (relation "measure (\<lambda>(inp, src_dat, chunk, code, st). length inp - src_dat)") auto

declare encode_loop.simps [simp del]

text \<open>\<open>size_t cobs_encode(std::span<const uint8_t> in, CobsEncodeCb auto&& cb)\<close>:
  the callback invocations in order, and the returned total.\<close>

definition cobs_encode_cb :: "u8 list \<Rightarrow> enc_call list \<times> nat" where
  "cobs_encode_cb inp =
     (case encode_loop inp 0 0 1 ([], 0) of
        (chunk, code, st) \<Rightarrow> write_chunk inp chunk code (length inp) st)"

text \<open>The byte stream a callback that appends its chunks receives.\<close>

definition encoded :: "u8 list \<Rightarrow> u8 list" where
  "encoded inp = concat (fst (cobs_encode_cb inp))"

section \<open>Bulk encoder, bounded-buffer variant\<close>

text \<open>
  The output span is the list \<open>out\<close> of its current contents; \<open>dst_end\<close> is \<open>length out\<close>,
  and \<open>dst_len\<close>, \<open>dst_dat\<close> are offsets from \<open>out.data()\<close>.
  \<open>store_byte\<close> is the guarded store \<open>if (dst < dst_end) *dst++ = v;\<close> and
  \<open>store_at\<close> the guarded store \<open>if (dst < dst_end) dst[0] = v;\<close>.
\<close>

definition store_byte :: "u8 list \<Rightarrow> nat \<Rightarrow> u8 \<Rightarrow> u8 list \<times> nat" where
  "store_byte out dst v = (if dst < length out then (out[dst := v], dst + 1) else (out, dst))"

definition store_at :: "u8 list \<Rightarrow> nat \<Rightarrow> u8 \<Rightarrow> u8 list" where
  "store_at out dst v = (if dst < length out then out[dst := v] else out)"

text \<open>
  One iteration of the \<open>while\<close> loop of the bounded-buffer \<open>cobs_encode\<close> on the byte \<open>b\<close>;
  \<open>more\<close> is the value of \<open>src < end\<close> after \<open>*src++\<close>. The state is
  \<open>(out, dst_len, dst_dat, code, required)\<close>.
\<close>

type_synonym enc_buf_state = "u8 list \<times> nat \<times> nat \<times> u8 \<times> nat"

definition encode_buf_step :: "u8 \<Rightarrow> bool \<Rightarrow> enc_buf_state \<Rightarrow> enc_buf_state" where
  "encode_buf_step b more st =
     (case st of (out, dst_len, dst_dat, code, required) \<Rightarrow>
        let (out1, dst_dat1, code1, required1) =
              (if b \<noteq> 0
               then (case store_byte out dst_dat b of
                       (out', dst_dat') \<Rightarrow> (out', dst_dat', code + 1, required + 1))
               else (out, dst_dat, code, required))
        in if code1 = 0xff \<or> b = 0
           then (let out2 = store_at out1 dst_len code1 in
                 if b = 0 \<or> more
                 then (out2, dst_dat1, (if dst_dat1 < length out2 then dst_dat1 + 1 else dst_dat1),
                       1, required1 + 1)
                 else (out2, dst_dat1, dst_dat1, 1, required1))
           else (out1, dst_len, dst_dat1, code1, required1))"

fun encode_buf_loop :: "u8 list \<Rightarrow> enc_buf_state \<Rightarrow> enc_buf_state" where
  "encode_buf_loop [] st = st"
| "encode_buf_loop (b # src) st = encode_buf_loop src (encode_buf_step b (src \<noteq> []) st)"

text \<open>\<open>size_t cobs_encode(std::span<const uint8_t> in, std::span<uint8_t> out)\<close>:
  the final contents of the output span and the returned required size.\<close>

definition cobs_encode_buf :: "u8 list \<Rightarrow> u8 list \<Rightarrow> u8 list \<times> nat" where
  "cobs_encode_buf inp out =
     (case encode_buf_loop inp (out, 0, 1, 1, 1) of
        (out', dst_len, dst_dat, code, required) \<Rightarrow> (store_at out' dst_len code, required))"

section \<open>Streaming encoder\<close>

text \<open>
  \<open>struct cobs_encoder_t\<close> has the single member \<open>uint8_t buf[256]\<close>. An access
  \<open>buf[i]\<close> with \<open>i \<ge> 256\<close> is undefined behaviour in the source; the model returns
  \<open>None\<close> there.
\<close>

record cobs_encoder_t =
  buf_e :: "u8 list"

definition encoder_reset :: "cobs_encoder_t \<Rightarrow> cobs_encoder_t" where
  "encoder_reset e = e\<lparr>buf_e := (buf_e e)[0 := 0]\<rparr>"

text \<open>\<open>flush\<close>: \<open>std::invoke(cb, buf, ++buf[0]); reset();\<close>\<close>

definition encoder_flush :: "cobs_encoder_t \<Rightarrow> enc_call list \<times> cobs_encoder_t" where
  "encoder_flush e =
     (let buf1 = (buf_e e)[0 := buf_e e ! 0 + 1]
      in ([take (unat (buf1 ! 0)) buf1], encoder_reset (e\<lparr>buf_e := buf1\<rparr>)))"

text \<open>\<open>step\<close>: the statement \<open>buf[1 + buf[0]++] = b\<close> writes at index \<open>1 + buf[0]\<close>
  (computed as \<open>int\<close>) and increments \<open>buf[0]\<close>.\<close>

definition encoder_step :: "u8 \<Rightarrow> cobs_encoder_t \<Rightarrow> (enc_call list \<times> cobs_encoder_t) option" where
  "encoder_step b e =
     (let (calls1, e1) = (if buf_e e ! 0 = 0xfe then encoder_flush e else ([], e))
      in if b = 0
         then (case encoder_flush e1 of (calls2, e2) \<Rightarrow> Some (calls1 @ calls2, e2))
         else (let i = 1 + unat (buf_e e1 ! 0)
               in if i < 256
                  then Some (calls1, e1\<lparr>buf_e := (buf_e e1)[i := b, 0 := buf_e e1 ! 0 + 1]\<rparr>)
                  else None))"

text \<open>\<open>sink\<close>: \<open>for (auto b : in) step(b, wr);\<close>\<close>

fun encoder_sink :: "u8 list \<Rightarrow> cobs_encoder_t \<Rightarrow> (enc_call list \<times> cobs_encoder_t) option" where
  "encoder_sink [] e = Some ([], e)"
| "encoder_sink (b # bs) e =
     (case encoder_step b e of
        None \<Rightarrow> None
      | Some (calls1, e1) \<Rightarrow>
          (case encoder_sink bs e1 of
             None \<Rightarrow> None
           | Some (calls2, e2) \<Rightarrow> Some (calls1 @ calls2, e2)))"

text \<open>\<open>stop\<close>: \<open>buf[1 + buf[0]++] = 0; std::invoke(cb, buf, buf[0] + 1); reset();\<close>\<close>

definition encoder_stop :: "cobs_encoder_t \<Rightarrow> (enc_call list \<times> cobs_encoder_t) option" where
  "encoder_stop e =
     (let i = 1 + unat (buf_e e ! 0)
      in if i < 256
         then (let buf1 = (buf_e e)[i := 0, 0 := buf_e e ! 0 + 1]
               in Some ([take (unat (buf1 ! 0) + 1) buf1], encoder_reset (e\<lparr>buf_e := buf1\<rparr>)))
         else None)"

text \<open>Feeding a payload one byte at a time: one \<open>sink\<close> call per byte, each on a span of
  length one, collecting the callback invocations of all calls.\<close>

fun encoder_feed_bytes :: "u8 list \<Rightarrow> cobs_encoder_t \<Rightarrow> (enc_call list \<times> cobs_encoder_t) option" where
  "encoder_feed_bytes [] e = Some ([], e)"
| "encoder_feed_bytes (b # bs) e =
     (case encoder_sink [b] e of
        None \<Rightarrow> None
      | Some (calls1, e1) \<Rightarrow>
          (case encoder_feed_bytes bs e1 of
             None \<Rightarrow> None
           | Some (calls2, e2) \<Rightarrow> Some (calls1 @ calls2, e2)))"

section \<open>Bulk decoder, callback variant\<close>

text \<open>
  The \<open>while\<close> loop of the callback \<open>cobs_decode\<close>. \<open>src\<close> is the list of the bytes from the
  pointer \<open>src\<close> to \<open>end\<close>. The result is \<open>(block, total, calls)\<close> at loop exit
  (also through \<open>break\<close>).
\<close>

function decode_loop ::
  "u8 list \<Rightarrow> u8 \<Rightarrow> u8 \<Rightarrow> nat \<Rightarrow> dec_call list \<Rightarrow> u8 \<times> nat \<times> dec_call list" where
  "decode_loop src code block total_n calls =
     (if src \<noteq> [] then
        (if block \<noteq> 0 then
           (let avail = length src;
                chunk = (if unat block < avail then unat block else avail)
            in if chunk \<noteq> 0
               then (let calls1 = calls @ [(Some (take chunk src), chunk, 0)];
                         block1 = block - of_nat chunk;
                         total1 = total_n + chunk;
                         src1 = drop chunk src
                     in decode_loop src1 code (if block1 \<noteq> 0 then block1 - 1 else block1) total1 calls1)
               else decode_loop src code (block - 1) total_n calls)
         else
           (let block1 = hd src;
                src1 = tl src;
                (calls1, total1) =
                   (if block1 \<noteq> 0 \<and> code \<noteq> 0xff
                    then (calls @ [(Some [0], 1, 0)], total_n + 1)
                    else (calls, total_n));
                code1 = block1
            in if code1 = 0 then (block1, total1, calls1)
               else decode_loop src1 code1 (block1 - 1) total1 calls1))
      else (block, total_n, calls))"
  by pat_completeness auto
termination
  by (relation "measure (\<lambda>(src, code, block, total_n, calls). length src)")
     (auto split: if_splits simp: unat_gt_0 unat_eq_0)

declare decode_loop.simps [simp del]

text \<open>\<open>size_t cobs_decode(std::span<const uint8_t> in, CobsDecodeCb auto&& cb)\<close>:
  the callback invocations in order, and the return value.\<close>

definition cobs_decode_cb :: "u8 list \<Rightarrow> dec_call list \<times> nat" where
  "cobs_decode_cb inp =
     (case decode_loop inp 0xff 0 0 [] of
        (block, total_n, calls) \<Rightarrow>
          if block \<noteq> 0 then (calls @ [(None, 0, unat block)], 0) else (calls, total_n))"

text \<open>The bytes a callback that appends every chunk it is given receives.\<close>

definition received :: "dec_call list \<Rightarrow> u8 list" where
  "received calls = concat (map (\<lambda>(d, n, l). case d of None \<Rightarrow> [] | Some bs \<Rightarrow> bs) calls)"

section \<open>Bulk decoder, bounded-buffer variant\<close>

text \<open>
  The \<open>while\<close> loop of the bounded-buffer \<open>cobs_decode\<close>; the state is
  \<open>(out, dst, code, block, required)\<close>. The loop reads one input byte per iteration.
\<close>

type_synonym dec_buf_state = "u8 list \<times> nat \<times> u8 \<times> u8 \<times> nat"

fun decode_buf_loop :: "u8 list \<Rightarrow> dec_buf_state \<Rightarrow> dec_buf_state" where
  "decode_buf_loop [] st = st"
| "decode_buf_loop (b # src) (out, dst, code, block, required) =
     (if block \<noteq> 0
      then (case store_byte out dst b of
              (out1, dst1) \<Rightarrow> decode_buf_loop src (out1, dst1, code, block - 1, required + 1))
      else (let block1 = b;
                (out1, dst1, required1) =
                   (if block1 \<noteq> 0 \<and> code \<noteq> 0xff
                    then (case store_byte out dst 0 of (out', dst') \<Rightarrow> (out', dst', required + 1))
                    else (out, dst, required));
                code1 = block1
            in if code1 = 0 then (out1, dst1, code1, block1, required1)
               else decode_buf_loop src (out1, dst1, code1, block1 - 1, required1)))"

text \<open>\<open>size_t cobs_decode(std::span<const uint8_t> in, std::span<uint8_t> out)\<close>:
  the final contents of the output span and the return value.\<close>

definition cobs_decode_buf :: "u8 list \<Rightarrow> u8 list \<Rightarrow> u8 list \<times> nat" where
  "cobs_decode_buf inp out =
     (case decode_buf_loop inp (out, 0, 0xff, 0, 0) of
        (out', dst, code, block, required) \<Rightarrow> (out', if block \<noteq> 0 then 0 else required))"

section \<open>Streaming decoder\<close>

text \<open>
  \<open>struct cobs_decoder_t\<close> with members \<open>uint8_t size\<close>, \<open>uint8_t code\<close> and
  \<open>uint8_t buf[255]\<close>. A write \<open>buf[i]\<close> with \<open>i \<ge> 255\<close> is undefined behaviour in the
  source; the model returns \<open>None\<close> there.
\<close>

record cobs_decoder_t =
  size_d :: u8
  code_d :: u8
  buf_d :: "u8 list"

definition decoder_reset :: "cobs_decoder_t \<Rightarrow> cobs_decoder_t" where
  "decoder_reset d = d\<lparr>size_d := 0, code_d := 0\<rparr>"

text \<open>
  The third argument of the callback in \<open>stop\<close>, \<open>code ? code - size - 1u : 0u\<close>:
  \<open>code - size\<close> is computed as \<open>int\<close> and the subtraction of \<open>1u\<close> as \<open>unsigned\<close>
  (32 bits), so the value wraps modulo \<open>2 ^ 32\<close>.
\<close>

definition decoder_left :: "cobs_decoder_t \<Rightarrow> nat" where
  "decoder_left d =
     (if code_d d \<noteq> 0
      then unat ((ucast (code_d d) :: 32 word) - ucast (size_d d) - 1)
      else 0)"

text \<open>\<open>stop\<close>: \<open>std::invoke(cb, buf, size, code ? code - size - 1u : 0u); reset();\<close>\<close>

definition decoder_stop :: "cobs_decoder_t \<Rightarrow> dec_call list \<times> cobs_decoder_t" where
  "decoder_stop d =
     ([(Some (take (unat (size_d d)) (buf_d d)), unat (size_d d), decoder_left d)],
      decoder_reset d)"

definition decoder_step :: "u8 \<Rightarrow> cobs_decoder_t \<Rightarrow> (dec_call list \<times> cobs_decoder_t) option" where
  "decoder_step b d =
     (if b = 0 then Some (decoder_stop d)
      else if code_d d = 0 \<or> unat (size_d d) + 1 = unat (code_d d)
      then (case (if code_d d \<noteq> 0 \<and> code_d d \<noteq> 0xff
                  then (if unat (size_d d) < 255
                        then Some (d\<lparr>buf_d := (buf_d d)[unat (size_d d) := 0],
                                     size_d := size_d d + 1\<rparr>)
                        else None)
                  else Some d) of
              None \<Rightarrow> None
            | Some d1 \<Rightarrow>
                Some ([(Some (take (unat (size_d d1)) (buf_d d1)), unat (size_d d1), 0)],
                      d1\<lparr>size_d := 0, code_d := b\<rparr>))
      else (if unat (size_d d) < 255
            then Some ([], d\<lparr>buf_d := (buf_d d)[unat (size_d d) := b], size_d := size_d d + 1\<rparr>)
            else None))"

text \<open>\<open>sink\<close>: \<open>for (auto b : in) step(b, wr);\<close>\<close>

fun decoder_sink :: "u8 list \<Rightarrow> cobs_decoder_t \<Rightarrow> (dec_call list \<times> cobs_decoder_t) option" where
  "decoder_sink [] d = Some ([], d)"
| "decoder_sink (b # bs) d =
     (case decoder_step b d of
        None \<Rightarrow> None
      | Some (calls1, d1) \<Rightarrow>
          (case decoder_sink bs d1 of
             None \<Rightarrow> None
           | Some (calls2, d2) \<Rightarrow> Some (calls1 @ calls2, d2)))"

text \<open>The objects as constructed: the default member initialisers zero every member.\<close>

definition encoder_init :: cobs_encoder_t where
  "encoder_init = \<lparr>buf_e = replicate 256 0\<rparr>"

definition decoder_init :: cobs_decoder_t where
  "decoder_init = \<lparr>size_d = 0, code_d = 0, buf_d = replicate 255 0\<rparr>"

section \<open>Frames of nonzero bytes\<close>

text \<open>
  A sequence of nonzero bytes read as a frame without delimiter: a code byte \<open>c\<close>
  declares \<open>c - 1\<close> data bytes, the next code byte follows them. The frame is complete
  when every declared block is complete, and truncated when a code byte declares more
  data bytes than remain. \<open>last_block_data\<close> is the data received for the last block.
\<close>

fun frame_complete :: "u8 list \<Rightarrow> bool" where
  "frame_complete [] = True"
| "frame_complete (c # bs) =
     (if unat c - 1 \<le> length bs then frame_complete (drop (unat c - 1) bs) else False)"

fun frame_truncated :: "u8 list \<Rightarrow> bool" where
  "frame_truncated [] = False"
| "frame_truncated (c # bs) =
     (if unat c - 1 \<le> length bs then frame_truncated (drop (unat c - 1) bs) else True)"

fun last_block_data :: "u8 list \<Rightarrow> u8 list" where
  "last_block_data [] = []"
| "last_block_data (c # bs) =
     (if unat c - 1 < length bs then last_block_data (drop (unat c - 1) bs) else bs)"

text \<open>
  The same notions from inside a block: \<open>k\<close> data bytes of the current block are still
  expected, \<open>acc\<close> is the data received for it so far.
\<close>

definition complete_from :: "nat \<Rightarrow> u8 list \<Rightarrow> bool" where
  "complete_from k bs = (if k \<le> length bs then frame_complete (drop k bs) else False)"

definition truncated_from :: "nat \<Rightarrow> u8 list \<Rightarrow> bool" where
  "truncated_from k bs = (if k \<le> length bs then frame_truncated (drop k bs) else True)"

definition data_from :: "nat \<Rightarrow> u8 list \<Rightarrow> u8 list \<Rightarrow> u8 list" where
  "data_from k acc bs = (if k < length bs then last_block_data (drop k bs) else acc @ bs)"

section \<open>Invariant of the streaming decoder\<close>

text \<open>
  The buffer has its 255 bytes; while no code byte has been read (\<open>code = 0\<close>) the block is
  empty, and otherwise fewer data bytes are buffered than the code byte says.
\<close>

definition decoder_inv :: "cobs_decoder_t \<Rightarrow> bool" where
  "decoder_inv d =
     (length (buf_d d) = 255 \<and>
      (if code_d d = 0 then size_d d = 0 else unat (size_d d) < unat (code_d d)))"

text \<open>The number of data bytes the streaming decoder still expects for its current block.\<close>

definition expected_d :: "cobs_decoder_t \<Rightarrow> nat" where
  "expected_d d = unat (code_d d) - 1 - unat (size_d d)"

section \<open>The block structure of the encoding\<close>

text \<open>
  The callback invocations the loop of the callback encoder and its final \<open>write_chunk\<close>
  make from a state with the given \<open>code\<close> whose pending span \<open>[chunk, src_dat)\<close> holds the
  bytes \<open>pending\<close>, on the remaining input bytes.
\<close>

fun blocks :: "u8 list \<Rightarrow> u8 \<Rightarrow> u8 list \<Rightarrow> enc_call list" where
  "blocks [] code pending = [[code], pending]"
| "blocks (b # bs) code pending =
     (if code = 0xff
      then [[code], pending] @ (if b = 0 then [[1], []] @ blocks bs 1 [] else blocks bs (1 + 1) [b])
      else if b = 0 then [[code], pending] @ blocks bs 1 []
      else blocks bs (code + 1) (pending @ [b]))"

text \<open>
  The pending data of the streaming encoder, the \<open>buf[0]\<close> bytes after \<open>buf[0]\<close>, and its
  invariant: the buffer has its 256 bytes and at most 254 data bytes are pending.
\<close>

definition pending_e :: "cobs_encoder_t \<Rightarrow> u8 list" where
  "pending_e e = take (unat (buf_e e ! 0)) (drop 1 (buf_e e))"

definition encoder_inv :: "cobs_encoder_t \<Rightarrow> bool" where
  "encoder_inv e = (length (buf_e e) = 256 \<and> unat (buf_e e ! 0) \<le> 254)"

section \<open>The bytes the bounded-buffer encoder stores\<close>

text \<open>
  \<open>overlay out p xs\<close> stores the bytes \<open>xs\<close> into \<open>out\<close> from offset \<open>p\<close> on; bytes that
  fall outside the buffer are dropped, the length of the buffer does not change.
\<close>

fun overlay :: "u8 list \<Rightarrow> nat \<Rightarrow> u8 list \<Rightarrow> u8 list" where
  "overlay out p [] = out"
| "overlay out p (x # xs) = overlay (out[p := x]) (Suc p) xs"

text \<open>
  The bytes the loop of the bounded-buffer encoder and its final store address, in the
  order of their offsets, from a state at the loop head with the given \<open>code\<close> and the
  data bytes \<open>pending\<close> of the open block (already stored behind the reserved code slot);
  the first of them belongs at the reserved code slot.
\<close>

fun buf_bytes :: "u8 list \<Rightarrow> u8 \<Rightarrow> u8 list \<Rightarrow> u8 list" where
  "buf_bytes [] code pending = code # pending"
| "buf_bytes (b # bs) code pending =
     (if b \<noteq> 0
      then (if code + 1 = 0xff
            then ((code + 1) # pending @ [b]) @ (if bs = [] then [1] else buf_bytes bs 1 [])
            else buf_bytes bs (code + 1) (pending @ [b]))
      else (code # pending) @ buf_bytes bs 1 [])"

text \<open>
  The state of the bounded-buffer encoder at the loop head, for an open block whose code
  slot has the offset \<open>slot\<close> in an unbounded buffer and whose data so far is \<open>pending\<close>:
  \<open>dst_len\<close> and \<open>dst_dat\<close> are the offsets of the code slot and of the next byte as long as
  these lie inside the buffer, and point to no byte of it otherwise.
\<close>

definition enc_buf_inv :: "nat \<Rightarrow> u8 list \<Rightarrow> enc_buf_state \<Rightarrow> bool" where
  "enc_buf_inv slot pending st =
     (case st of (out, dst_len, dst_dat, code, required) \<Rightarrow>
        unat code = length pending + 1 \<and> length pending < 254 \<and>
        required = slot + unat code \<and>
        (if slot < length out then dst_len = slot else length out \<le> dst_len) \<and>
        (if required \<le> length out then dst_dat = required else length out \<le> dst_dat) \<and>
        overlay out (slot + 1) pending = out)"

definition finish_buf :: "enc_buf_state \<Rightarrow> u8 list \<times> nat" where
  "finish_buf st =
     (case st of (out', dst_len, dst_dat, code, required) \<Rightarrow>
        (store_at out' dst_len code, required))"

section \<open>The decoded output of a block\<close>

text \<open>
  The implied zero a decoder emits before the data of a block when the code of the
  previous block is \<open>prev\<close> (initially \<open>0xff\<close>), as bytes and as callback invocations, and
  the invocation for the data of a block.
\<close>

definition implied_zero :: "u8 \<Rightarrow> u8 list" where
  "implied_zero prev = (if prev = 0xff then [] else [0])"

definition zero_call :: "u8 \<Rightarrow> dec_call list" where
  "zero_call prev = (if prev = 0xff then [] else [(Some [0], 1, 0)])"

definition data_call :: "u8 list \<Rightarrow> dec_call list" where
  "data_call ds = (if ds = [] then [] else [(Some ds, length ds, 0)])"

text \<open>A callback invocation that passes data and reports no missing byte.\<close>

definition plain_call :: "dec_call \<Rightarrow> bool" where
  "plain_call c = (case c of (d, n, l) \<Rightarrow> d \<noteq> None \<and> n = length (the d) \<and> l = 0)"

text \<open>The guarded stores \<open>if (dst < dst_end) *dst++ = v;\<close> for the bytes of a list in turn.\<close>

definition stores :: "u8 list \<times> nat \<Rightarrow> u8 list \<Rightarrow> u8 list \<times> nat" where
  "stores od xs = foldl (\<lambda>(out, dst) v. store_byte out dst v) od xs"

text \<open>
  The callback encoder invokes its callback in pairs, first with the code byte and then
  with the data span; \<open>data_chunks\<close> and \<open>code_chunks\<close> select the two kinds.
\<close>

fun data_chunks :: "enc_call list \<Rightarrow> enc_call list" where
  "data_chunks (c # d # rest) = d # data_chunks rest"
| "data_chunks rest = []"

fun code_chunks :: "enc_call list \<Rightarrow> enc_call list" where
  "code_chunks (c # d # rest) = c # code_chunks rest"
| "code_chunks rest = rest"

text \<open>A chunk without a zero byte, and a chunk that is exactly one nonzero byte.\<close>

definition zero_free :: "u8 list \<Rightarrow> bool" where
  "zero_free c = (0 \<notin> set c)"

definition code_chunk :: "u8 list \<Rightarrow> bool" where
  "code_chunk c = (length c = 1 \<and> 1 \<le> unat (hd c) \<and> unat (hd c) \<le> 255)"

text \<open>The last statements of the callback encoder, applied to the state at loop exit.\<close>

definition finish_cb ::
  "u8 list \<Rightarrow> nat \<times> u8 \<times> (enc_call list \<times> nat) \<Rightarrow> enc_call list \<times> nat" where
  "finish_cb inp r =
     (case r of (chunk, code, st) \<Rightarrow> write_chunk inp chunk code (length inp) st)"

section \<open>Facts about bytes\<close>

lemma u8_lt_256: "unat (w :: u8) < 256"
  using unsigned_less [of w, where ?'a = nat] by simp

lemma u8_succ: "unat (w :: u8) < 255 \<Longrightarrow> unat (w + 1) = unat w + 1"
  by (simp add: unat_word_ariths)

lemma u8_nonzero: "(w :: u8) \<noteq> 0 \<longleftrightarrow> 0 < unat w"
  by (simp add: unat_gt_0)

lemma u8_ff: "(w :: u8) = 0xff \<longleftrightarrow> unat w = 255"
  by (simp add: word_unat_eq_iff)

section \<open>Concrete wire vectors\<close>

lemma vec_empty_cb: "cobs_encode_cb [] = ([[1], []], 1)"
  by code_simp

lemma vec_empty_buf: "cobs_encode_buf [] [0x55] = ([1], 1)"
  by code_simp

lemma vec_empty_dec: "cobs_decode_cb [1, 0] = ([], 0)"
  by code_simp

lemma vec_zero_cb: "cobs_encode_cb [0] = ([[1], [], [1], []], 2)"
  by code_simp

lemma vec_zero_buf: "cobs_encode_buf [0] [0x55, 0x55] = ([1, 1], 2)"
  by code_simp

lemma vec_zero_dec: "cobs_decode_cb [1, 1, 0] = ([(Some [0], 1, 0)], 1)"
  by code_simp

lemma vec_zero_dec_buf: "cobs_decode_buf [1, 1, 0] [0x55] = ([0], 1)"
  by code_simp

lemma vec_255_cb:
  "cobs_encode_cb (replicate 255 1) = ([[0xff], replicate 254 1, [2], [1]], 257)"
  by code_simp

lemma vec_255_buf:
  "cobs_encode_buf (replicate 255 1) (replicate 257 0) = (0xff # replicate 254 1 @ [2, 1], 257)"
  by code_simp

lemma vec_255_dec:
  "cobs_decode_cb (0xff # replicate 254 1 @ [2, 1, 0]) =
     ([(Some (replicate 254 1), 254, 0), (Some [1], 1, 0)], 255)"
  by code_simp

lemma vec_255_dec_buf:
  "cobs_decode_buf (0xff # replicate 254 1 @ [2, 1, 0]) (replicate 255 0) = (replicate 255 1, 255)"
  by code_simp

text \<open>
  Claim C9. The bulk encoder maps the empty payload to the single block \<open>[0x01]\<close>; it maps
  the payload \<open>[0x00]\<close> to \<open>[0x01, 0x01]\<close>, and the frame \<open>[0x01, 0x01, 0x00]\<close> decodes
  back to \<open>[0x00]\<close>; it maps 255 bytes of \<open>0x01\<close> to a \<open>0xFF\<close> block of 254 data bytes
  followed by a \<open>0x02\<close> block with the remaining byte, and that frame decodes to the 255
  bytes, with no zero between the two blocks. The callback variant is shown with its
  sequence of callback invocations, the bounded-buffer variant with the final buffer.
\<close>

theorem wire_vectors:
  "cobs_encode_cb [] = ([[1], []], 1) \<and> encoded [] = [1] \<and>
   cobs_encode_buf [] [0x55] = ([1], 1) \<and>
   cobs_decode_cb [1, 0] = ([], 0) \<and>
   cobs_encode_cb [0] = ([[1], [], [1], []], 2) \<and> encoded [0] = [1, 1] \<and>
   cobs_encode_buf [0] [0x55, 0x55] = ([1, 1], 2) \<and>
   cobs_decode_cb [1, 1, 0] = ([(Some [0], 1, 0)], 1) \<and>
   received (fst (cobs_decode_cb [1, 1, 0])) = [0] \<and>
   cobs_decode_buf [1, 1, 0] [0x55] = ([0], 1) \<and>
   cobs_encode_cb (replicate 255 1) = ([[0xff], replicate 254 1, [2], [1]], 257) \<and>
   encoded (replicate 255 1) = 0xff # replicate 254 1 @ [2, 1] \<and>
   cobs_encode_buf (replicate 255 1) (replicate 257 0) = (0xff # replicate 254 1 @ [2, 1], 257) \<and>
   cobs_decode_cb (0xff # replicate 254 1 @ [2, 1, 0]) =
     ([(Some (replicate 254 1), 254, 0), (Some [1], 1, 0)], 255) \<and>
   received (fst (cobs_decode_cb (0xff # replicate 254 1 @ [2, 1, 0]))) = replicate 255 1 \<and>
   cobs_decode_buf (0xff # replicate 254 1 @ [2, 1, 0]) (replicate 255 0) = (replicate 255 1, 255)"
proof -
  have "replicate 254 (1 :: u8) @ [1] = replicate 255 1"
    by code_simp
  then show ?thesis
    unfolding encoded_def received_def vec_empty_cb vec_empty_buf vec_empty_dec vec_zero_cb
      vec_zero_buf vec_zero_dec vec_zero_dec_buf vec_255_cb vec_255_buf vec_255_dec
      vec_255_dec_buf
    by simp
qed

section \<open>Truncated frames in the bulk callback decoder\<close>

lemma trunc_cb_3: "cobs_decode_cb [3, 0x41] = ([(Some [0x41], 1, 0)], 1)"
  by code_simp

lemma trunc_buf_3: "cobs_decode_buf [3, 0x41] [0x55, 0x55] = ([0x41, 0x55], 0)"
  by code_simp

text \<open>
  Claim C3. The input \<open>[0x03, 0x41]\<close> is truncated: its code byte declares two data
  bytes, one is present, and no delimiter follows. The bounded-buffer decoder returns 0
  on it; the callback decoder returns 1, the length of the partial output, and its only
  callback invocation carries \<open>left = 0\<close>. The decrement \<open>if (block) --block;\<close> at the end of
  the loop body runs after a partial data chunk as well, so one missing byte goes unnoticed.
\<close>

theorem truncated_frame_accepted:
  "cobs_decode_cb [3, 0x41] = ([(Some [0x41], 1, 0)], 1) \<and>
   snd (cobs_decode_buf [3, 0x41] [0x55, 0x55]) = 0"
  unfolding trunc_cb_3 trunc_buf_3 by simp

lemma trunc_cb_4: "cobs_decode_cb [4, 0x41] = ([(Some [0x41], 1, 0), (None, 0, 1)], 0)"
  by code_simp

lemma trunc_stream_4:
  "map_option (\<lambda>(calls, d). fst (decoder_stop d)) (decoder_sink [4, 0x41] decoder_init) =
     Some [(Some [0x41], 1, 2)]"
  by code_simp

lemma trunc_cb_3_last: "last (fst (cobs_decode_cb [3, 0x41])) = (Some [0x41], 1, 0)"
  unfolding trunc_cb_3 by simp

text \<open>
  Claim C4. On the truncated input \<open>[0x04, 0x41]\<close> (three data bytes declared, one present,
  two missing) the final callback invocation of the bulk callback decoder is
  \<open>(nullptr, 0, 1)\<close>, while the streaming decoder fed the same bytes reports
  \<open>left = code - size - 1 = 2\<close> in \<open>stop\<close>. On \<open>[0x03, 0x41]\<close> (one byte missing) the
  final invocation of the bulk decoder is a data chunk with \<open>left = 0\<close>, not
  \<open>(nullptr, 0, m)\<close>.
\<close>

theorem missing_count_off_by_one:
  "last (fst (cobs_decode_cb [4, 0x41])) = (None, 0, 1) \<and>
   map_option (\<lambda>(calls, d). fst (decoder_stop d)) (decoder_sink [4, 0x41] decoder_init) =
     Some [(Some [0x41], 1, 2)] \<and>
   last (fst (cobs_decode_cb [3, 0x41])) = (Some [0x41], 1, 0)"
  unfolding trunc_cb_4 trunc_stream_4 trunc_cb_3_last by simp

section \<open>Bytes written by the bounded-buffer encoder\<close>

lemma stray_254: 
  "cobs_encode_buf (replicate 254 1) (replicate 256 0) = (0xff # replicate 254 1 @ [1], 255)"
  by code_simp

text \<open>
  Claim C8. For a payload of 254 bytes \<open>0x01\<close> and a zeroed output buffer of capacity 256,
  the bounded-buffer encoder returns the required size 255 and leaves the value \<open>0x01\<close>
  at offset 255 of the buffer: after the full block is closed at the end of the input,
  \<open>dst_len\<close> is moved to \<open>dst_dat\<close> and the final \<open>dst_len[0] = code\<close> writes one byte
  past the required size.
\<close>

theorem write_past_required_size:
  "snd (cobs_encode_buf (replicate 254 1) (replicate 256 0)) = 255 \<and>
   fst (cobs_encode_buf (replicate 254 1) (replicate 256 0)) ! 255 = 1 \<and>
   replicate 256 (0 :: u8) ! 255 = 0"
  unfolding stray_254 by (simp add: nth_append)

section \<open>The streaming decoder keeps its invariant\<close>

lemma decoder_step_inv:
  assumes "decoder_inv d"
  shows "\<exists>calls d'. decoder_step b d = Some (calls, d') \<and> decoder_inv d' \<and>
           (\<forall>c \<in> set calls. fst (snd c) \<le> 254)"
  using assms u8_lt_256[of "code_d d"]
  by (auto simp: decoder_step_def decoder_inv_def decoder_stop_def decoder_reset_def
      u8_succ u8_nonzero u8_ff split: if_splits)

lemma decoder_sink_inv:
  assumes "decoder_inv d"
  shows "\<exists>calls d'. decoder_sink bs d = Some (calls, d') \<and> decoder_inv d' \<and>
           (\<forall>c \<in> set calls. fst (snd c) \<le> 254)"
  using assms
proof (induction bs arbitrary: d)
  case Nil
  then show ?case by simp
next
  case (Cons b bs)
  from decoder_step_inv [OF Cons.prems, of b] obtain c1 d1 where
    s: "decoder_step b d = Some (c1, d1)" "decoder_inv d1" "\<forall>c \<in> set c1. fst (snd c) \<le> 254"
    by blast
  from Cons.IH [OF s(2)] obtain c2 d2 where
    r: "decoder_sink bs d1 = Some (c2, d2)" "decoder_inv d2" "\<forall>c \<in> set c2. fst (snd c) \<le> 254"
    by blast
  show ?case using s r by auto
qed

lemma decoder_inv_reset: "length (buf_d d) = 255 \<Longrightarrow> decoder_inv (decoder_reset d)"
  by (simp add: decoder_inv_def decoder_reset_def)

text \<open>
  Claim C10. Feed any bytes \<open>bs\<close> (zero bytes included) to a decoder in its reset state.
  After every number \<open>k\<close> of steps no write left the 255-byte buffer (the model returns
  \<open>Some\<close>), the state satisfies \<open>code = 0 \<longrightarrow> size = 0\<close> and
  \<open>code > 0 \<longrightarrow> size \<le> code - 1\<close>, \<open>size\<close> is at most 254, and every chunk length passed to
  the callback so far is at most 254.
\<close>

theorem decoder_state_invariant:
  assumes "length (buf_d d) = 255"
  shows "\<exists>calls d'. decoder_sink (take k bs) (decoder_reset d) = Some (calls, d') \<and>
           (code_d d' = 0 \<longrightarrow> size_d d' = 0) \<and>
           (0 < unat (code_d d') \<longrightarrow> unat (size_d d') \<le> unat (code_d d') - 1) \<and>
           unat (size_d d') \<le> 254 \<and> length (buf_d d') = 255 \<and>
           (\<forall>(data, n, left) \<in> set calls. n \<le> 254)"
proof -
  from decoder_sink_inv [OF decoder_inv_reset [OF assms(1)], of "take k bs"] obtain calls d' where
    r: "decoder_sink (take k bs) (decoder_reset d) = Some (calls, d')" "decoder_inv d'"
       "\<forall>c \<in> set calls. fst (snd c) \<le> 254"
    by blast
  have "unat (size_d d') \<le> 254"
    using r(2) u8_lt_256 [of "code_d d'"] by (auto simp: decoder_inv_def split: if_splits)
  moreover have "\<forall>(data, n, left) \<in> set calls. n \<le> 254"
    using r(3) by auto
  ultimately show ?thesis
    using r(1,2) by (auto simp: decoder_inv_def u8_nonzero split: if_splits)
qed

theorem decoder_state_invariant_witness:
  "length (buf_d decoder_init) = 255 \<and>
   (\<exists>calls d'. decoder_sink (take 2 [3, 0x41, 0x42]) (decoder_reset decoder_init) = Some (calls, d') \<and>
      (code_d d' = 0 \<longrightarrow> size_d d' = 0) \<and>
      (0 < unat (code_d d') \<longrightarrow> unat (size_d d') \<le> unat (code_d d') - 1) \<and>
      unat (size_d d') \<le> 254 \<and> length (buf_d d') = 255 \<and>
      (\<forall>(data, n, left) \<in> set calls. n \<le> 254))"
proof -
  have a: "length (buf_d decoder_init) = 255" by (simp add: decoder_init_def)
  show ?thesis using a decoder_state_invariant [OF a, of 2 "[3, 0x41, 0x42]"] by blast
qed

section \<open>Finalisation of the streaming decoder\<close>

lemma complete_from_Cons:
  "complete_from k (b # bs) =
     (if k = 0 then complete_from (unat b - 1) bs else complete_from (k - 1) bs)"
  by (cases k) (auto simp: complete_from_def)

lemma truncated_from_Cons:
  "truncated_from k (b # bs) =
     (if k = 0 then truncated_from (unat b - 1) bs else truncated_from (k - 1) bs)"
  by (cases k) (auto simp: truncated_from_def)

lemma data_from_Cons:
  "data_from k acc (b # bs) =
     (if k = 0 then data_from (unat b - 1) [] bs else data_from (k - 1) (acc @ [b]) bs)"
  by (cases k) (auto simp: data_from_def)

lemma truncated_not_complete: "frame_truncated bs = (\<not> frame_complete bs)"
  by (induction bs rule: frame_complete.induct) auto

lemma decoder_step_mid:
  assumes "decoder_inv d" "code_d d \<noteq> 0" "b \<noteq> 0"
  shows "\<exists>calls d'. decoder_step b d = Some (calls, d') \<and> decoder_inv d' \<and> code_d d' \<noteq> 0 \<and>
     expected_d d' = (if expected_d d = 0 then unat b - 1 else expected_d d - 1) \<and>
     take (unat (size_d d')) (buf_d d') =
       (if expected_d d = 0 then [] else take (unat (size_d d)) (buf_d d) @ [b])"
  using assms u8_lt_256[of "code_d d"]
  by (auto simp: decoder_step_def decoder_inv_def expected_d_def
      u8_succ u8_nonzero u8_ff take_Suc_conv_app_nth split: if_splits)

lemma decoder_sink_mid:
  assumes "decoder_inv d" "code_d d \<noteq> 0" "0 \<notin> set bs"
  shows "\<exists>calls d'. decoder_sink bs d = Some (calls, d') \<and> decoder_inv d' \<and> code_d d' \<noteq> 0 \<and>
     (expected_d d' = 0 \<longleftrightarrow> complete_from (expected_d d) bs) \<and>
     (0 < expected_d d' \<longleftrightarrow> truncated_from (expected_d d) bs) \<and>
     take (unat (size_d d')) (buf_d d') =
       data_from (expected_d d) (take (unat (size_d d)) (buf_d d)) bs"
  using assms
proof (induction bs arbitrary: d)
  case Nil
  then show ?case by (auto simp: complete_from_def truncated_from_def data_from_def)
next
  case (Cons b bs)
  have b: "b \<noteq> 0" using Cons.prems(3) by auto
  from decoder_step_mid [OF Cons.prems(1,2) b] obtain c1 d1 where
    s: "decoder_step b d = Some (c1, d1)" "decoder_inv d1" "code_d d1 \<noteq> 0"
       "expected_d d1 = (if expected_d d = 0 then unat b - 1 else expected_d d - 1)"
       "take (unat (size_d d1)) (buf_d d1) =
          (if expected_d d = 0 then [] else take (unat (size_d d)) (buf_d d) @ [b])"
    by blast
  have "0 \<notin> set bs" using Cons.prems(3) by auto
  from Cons.IH [OF s(2,3) this] obtain c2 d2 where
    r: "decoder_sink bs d1 = Some (c2, d2)" "decoder_inv d2" "code_d d2 \<noteq> 0"
       "expected_d d2 = 0 \<longleftrightarrow> complete_from (expected_d d1) bs"
       "0 < expected_d d2 \<longleftrightarrow> truncated_from (expected_d d1) bs"
       "take (unat (size_d d2)) (buf_d d2) =
          data_from (expected_d d1) (take (unat (size_d d1)) (buf_d d1)) bs"
    by auto
  show ?case
    using s r by (simp add: complete_from_Cons truncated_from_Cons data_from_Cons)
qed

lemma decoder_step_first:
  assumes "length (buf_d d) = 255" "b \<noteq> 0"
  shows "\<exists>calls d'. decoder_step b (decoder_reset d) = Some (calls, d') \<and> decoder_inv d' \<and>
     code_d d' \<noteq> 0 \<and> expected_d d' = unat b - 1 \<and> take (unat (size_d d')) (buf_d d') = []"
  using assms
  by (auto simp: decoder_step_def decoder_inv_def decoder_reset_def expected_d_def u8_nonzero)

lemma ucast_u8_32: "unat (ucast (c :: u8) :: 32 word) = unat c"
proof -
  have "unat c < 2 ^ 32" using u8_lt_256 [of c] by simp
  then show ?thesis by (simp add: unsigned_ucast_eq take_bit_nat_eq_self)
qed

lemma left_arith:
  fixes c s :: u8
  assumes "unat s < unat c"
  shows "unat ((ucast c :: 32 word) - ucast s - 1) = unat c - 1 - unat s"
proof -
  let ?a = "ucast c :: 32 word" and ?b = "ucast s :: 32 word"
  have le: "?b \<le> ?a" using assms by (simp add: word_le_nat_alt ucast_u8_32)
  have d: "unat (?a - ?b) = unat c - unat s"
    using unat_sub [OF le] by (simp add: ucast_u8_32)
  then have "?a - ?b \<noteq> 0" using assms by (metis unat_0 zero_less_diff less_irrefl)
  then have "unat (?a - ?b - 1) = unat (?a - ?b) - 1" by (rule unat_minus_one)
  then show ?thesis using d by simp
qed

lemma decoder_left_inv:
  assumes "decoder_inv d"
  shows "decoder_left d = (if code_d d = 0 then 0 else expected_d d)"
    and "code_d d \<noteq> 0 \<Longrightarrow> int (decoder_left d) = uint (code_d d) - uint (size_d d) - 1"
proof -
  show "decoder_left d = (if code_d d = 0 then 0 else expected_d d)"
  proof (cases "code_d d = 0")
    case True
    then show ?thesis by (simp add: decoder_left_def)
  next
    case False
    then have "unat (size_d d) < unat (code_d d)"
      using assms by (simp add: decoder_inv_def)
    then show ?thesis
      using False by (simp add: decoder_left_def expected_d_def left_arith)
  qed
  then have e: "code_d d \<noteq> 0 \<Longrightarrow> decoder_left d = unat (code_d d) - 1 - unat (size_d d)"
    by (simp add: expected_d_def)
  show "int (decoder_left d) = uint (code_d d) - uint (size_d d) - 1" if nz: "code_d d \<noteq> 0"
  proof -
    have "unat (size_d d) < unat (code_d d)"
      using assms nz by (simp add: decoder_inv_def)
    then have "int (unat (code_d d) - 1 - unat (size_d d)) =
        int (unat (code_d d)) - int (unat (size_d d)) - 1"
      by linarith
    then show ?thesis
      unfolding e [OF nz] uint_nat .
  qed
qed

text \<open>
  Claim C5. Feed nonzero bytes \<open>bs\<close> to a decoder in its reset state, reaching the state
  \<open>d'\<close>. Then \<open>stop\<close> invokes the callback exactly once, with the buffered bytes
  \<open>buf[0..size)\<close> (the data received for the last block) and with
  \<open>left = (code ? code - size - 1 : 0)\<close>, computed without wrap-around, and resets
  \<open>size\<close> and \<open>code\<close>. Moreover \<open>left = 0\<close> exactly when every declared block of \<open>bs\<close>
  is complete (whatever the codes, \<open>0xFF\<close> included), and \<open>left > 0\<close> exactly when \<open>bs\<close>
  is truncated.
\<close>

theorem decoder_finalization:
  assumes "length (buf_d d) = 255" and "0 \<notin> set bs"
  shows "\<exists>calls d' left.
           decoder_sink bs (decoder_reset d) = Some (calls, d') \<and>
           decoder_stop d' =
             ([(Some (take (unat (size_d d')) (buf_d d')), unat (size_d d'), left)],
              d'\<lparr>size_d := 0, code_d := 0\<rparr>) \<and>
           (if code_d d' = 0 then left = 0
            else int left = uint (code_d d') - uint (size_d d') - 1) \<and>
           take (unat (size_d d')) (buf_d d') = last_block_data bs \<and>
           (left = 0 \<longleftrightarrow> frame_complete bs) \<and>
           (0 < left \<longleftrightarrow> frame_truncated bs)"
proof (cases bs)
  case Nil
  then show ?thesis
    by (simp add: decoder_stop_def decoder_reset_def decoder_left_def)
next
  case (Cons b bs')
  have b: "b \<noteq> 0" "0 \<notin> set bs'" using assms(2) Cons by auto
  from decoder_step_first [OF assms(1) b(1)] obtain c1 d1 where
    s: "decoder_step b (decoder_reset d) = Some (c1, d1)" "decoder_inv d1" "code_d d1 \<noteq> 0"
       "expected_d d1 = unat b - 1" "take (unat (size_d d1)) (buf_d d1) = []"
    by blast
  from decoder_sink_mid [OF s(2,3) b(2)] obtain c2 d2 where
    r: "decoder_sink bs' d1 = Some (c2, d2)" "decoder_inv d2" "code_d d2 \<noteq> 0"
       "expected_d d2 = 0 \<longleftrightarrow> complete_from (expected_d d1) bs'"
       "0 < expected_d d2 \<longleftrightarrow> truncated_from (expected_d d1) bs'"
       "take (unat (size_d d2)) (buf_d d2) =
          data_from (expected_d d1) (take (unat (size_d d1)) (buf_d d1)) bs'"
    by auto
  have "decoder_sink bs (decoder_reset d) = Some (c1 @ c2, d2)"
    using Cons s(1) r(1) by simp
  moreover have "decoder_stop d2 =
             ([(Some (take (unat (size_d d2)) (buf_d d2)), unat (size_d d2), expected_d d2)],
              d2\<lparr>size_d := 0, code_d := 0\<rparr>)"
    using decoder_left_inv(1) [OF r(2)] r(3) by (simp add: decoder_stop_def decoder_reset_def)
  moreover have "int (expected_d d2) = uint (code_d d2) - uint (size_d d2) - 1"
    using decoder_left_inv [OF r(2)] r(3) by simp
  moreover have "take (unat (size_d d2)) (buf_d d2) = last_block_data bs"
    using r(6) s(4,5) Cons by (simp add: data_from_def)
  moreover have "expected_d d2 = 0 \<longleftrightarrow> frame_complete bs"
    and "0 < expected_d d2 \<longleftrightarrow> frame_truncated bs"
    using r(4,5) s(4) Cons by (simp_all add: complete_from_def truncated_from_def)
  ultimately show ?thesis using r(3) by auto
qed

theorem decoder_finalization_witness:
  "length (buf_d decoder_init) = 255 \<and> 0 \<notin> set [3 :: u8, 0x41, 0x42, 0xff, 7] \<and>
   (\<exists>calls d' left.
      decoder_sink [3, 0x41, 0x42, 0xff, 7] (decoder_reset decoder_init) = Some (calls, d') \<and>
      decoder_stop d' =
        ([(Some (take (unat (size_d d')) (buf_d d')), unat (size_d d'), left)],
         d'\<lparr>size_d := 0, code_d := 0\<rparr>) \<and>
      (if code_d d' = 0 then left = 0
       else int left = uint (code_d d') - uint (size_d d') - 1) \<and>
      take (unat (size_d d')) (buf_d d') = last_block_data [3, 0x41, 0x42, 0xff, 7] \<and>
      (left = 0 \<longleftrightarrow> frame_complete [3, 0x41, 0x42, 0xff, 7]) \<and>
      (0 < left \<longleftrightarrow> frame_truncated [3, 0x41, 0x42, 0xff, 7]))"
proof -
  have a: "length (buf_d decoder_init) = 255" by (simp add: decoder_init_def)
  have b: "0 \<notin> set [3 :: u8, 0x41, 0x42, 0xff, 7]" by simp
  show ?thesis using a b decoder_finalization [OF a b] by blast
qed

section \<open>The callback encoder emits the block structure\<close>

lemma encode_loop_done:
  "\<not> i < length inp \<Longrightarrow> encode_loop inp i chunk code st = (chunk, code, st)"
  by (subst encode_loop.simps) simp

lemma encode_loop_step:
  "i < length inp \<Longrightarrow> encode_loop inp i chunk code st =
     (if code = 0xff
      then (if inp ! i = 0
            then encode_loop inp (i + 1) (i + 1) 1
                   (write_chunk inp i 1 i (write_chunk inp chunk code i st))
            else encode_loop inp (i + 1) i (1 + 1) (write_chunk inp chunk code i st))
      else (if inp ! i = 0
            then encode_loop inp (i + 1) (i + 1) 1 (write_chunk inp chunk code i st)
            else encode_loop inp (i + 1) chunk (code + 1) st))"
  by (subst encode_loop.simps) simp

lemma span_snoc:
  assumes "chunk \<le> i" "i < length inp"
  shows "take (Suc i - chunk) (drop chunk inp) = take (i - chunk) (drop chunk inp) @ [inp ! i]"
proof -
  have "i - chunk < length (drop chunk inp)" using assms by simp
  from take_Suc_conv_app_nth [OF this]
  have "take (Suc (i - chunk)) (drop chunk inp) = take (i - chunk) (drop chunk inp) @ [drop chunk inp ! (i - chunk)]" .
  moreover have "Suc (i - chunk) = Suc i - chunk" using assms by simp
  moreover have "drop chunk inp ! (i - chunk) = inp ! i" using assms by simp
  ultimately show ?thesis by simp
qed

lemma encode_loop_blocks:
  assumes "chunk \<le> i" "i \<le> length inp"
  shows "finish_cb inp (encode_loop inp i chunk code (calls, tot)) =
     (calls @ blocks (drop i inp) code (take (i - chunk) (drop chunk inp)),
      tot + length (concat (blocks (drop i inp) code (take (i - chunk) (drop chunk inp)))))"
  using assms
proof (induction "length inp - i" arbitrary: i chunk code calls tot)
  case 0
  then have "i = length inp" by simp
  then show ?case using 0
    by (simp add: encode_loop_done finish_cb_def write_chunk_def)
next
  case (Suc n)
  then have lt: "i < length inp" by simp
  have d: "drop i inp = inp ! i # drop (Suc i) inp"
    using lt by (simp add: Cons_nth_drop_Suc)
  have n: "n = length inp - Suc i" using Suc.hyps(2) by simp
  have le: "Suc i \<le> length inp" using lt by simp
  note sn = span_snoc [OF Suc.prems(1) lt]
  have len: "length (take (i - chunk) (drop chunk inp)) = i - chunk"
    using Suc.prems lt by simp
  show ?case
    using Suc.hyps(1) [OF n, of "Suc i"] Suc.hyps(1) [OF n, of i] Suc.hyps(1) [OF n, of chunk] Suc.prems(1) le lt len
    by (auto simp add: encode_loop_step d write_chunk_def sn del: length_take)
qed

lemma cobs_encode_cb_blocks:
  "cobs_encode_cb inp = (blocks inp 1 [], length (concat (blocks inp 1 [])))"
  using encode_loop_blocks [of 0 0 inp 1 "[]" 0]
  by (simp add: cobs_encode_cb_def finish_cb_def)

section \<open>The streaming encoder emits the same blocks\<close>

lemma take_Suc_update: "n < length xs \<Longrightarrow> take (Suc n) (xs[n := b]) = take n xs @ [b]"
  by (simp add: take_Suc_conv_app_nth)

lemma u8_fe: "(w :: u8) = 0xfe \<longleftrightarrow> unat w = 254"
  by (simp add: word_unat_eq_iff)

lemma encoder_flush_inv:
  assumes "encoder_inv e"
  shows "\<exists>e'. encoder_flush e = ([(buf_e e ! 0 + 1) # pending_e e], e') \<and> encoder_inv e' \<and>
           buf_e e' ! 0 = 0 \<and> pending_e e' = []"
proof -
  obtain x rest where b: "buf_e e = x # rest" using assms by (cases "buf_e e") (auto simp: encoder_inv_def)
  show ?thesis using assms b
    by (simp add: encoder_flush_def encoder_reset_def encoder_inv_def pending_e_def u8_succ Let_def)
qed

lemma encoder_store_inv:
  fixes b :: u8
  assumes "encoder_inv e" "unat (buf_e e ! 0) < 254" 
    and i: "i = 1 + unat (buf_e e ! 0)"
    and e': "e' = e\<lparr>buf_e := (buf_e e)[i := b, 0 := buf_e e ! 0 + 1]\<rparr>"
  shows "i < 256 \<and> encoder_inv e' \<and> buf_e e' ! 0 = buf_e e ! 0 + 1 \<and> pending_e e' = pending_e e @ [b]"
proof -
  obtain x rest where b: "buf_e e = x # rest" using assms by (cases "buf_e e") (auto simp: encoder_inv_def)
  show ?thesis using assms(1,2) b unfolding i e'
    by (simp add: encoder_inv_def pending_e_def u8_succ take_Suc_update)
qed

lemma encoder_step_blocks:
  assumes "encoder_inv e"
  shows "\<exists>calls e'. encoder_step b e = Some (calls, e') \<and> encoder_inv e' \<and>
     concat (blocks (b # bs) (buf_e e ! 0 + 1) (pending_e e)) =
       concat calls @ concat (blocks bs (buf_e e' ! 0 + 1) (pending_e e'))"
proof (cases "buf_e e ! 0 = 0xfe")
  case True
  from encoder_flush_inv [OF assms] obtain e1 where
    f: "encoder_flush e = ([(buf_e e ! 0 + 1) # pending_e e], e1)" "encoder_inv e1"
       "buf_e e1 ! 0 = 0" "pending_e e1 = []" by blast
  show ?thesis
  proof (cases "b = 0")
    case b0: True
    from encoder_flush_inv [OF f(2)] obtain e2 where
      g: "encoder_flush e1 = ([(buf_e e1 ! 0 + 1) # pending_e e1], e2)" "encoder_inv e2"
         "buf_e e2 ! 0 = 0" "pending_e e2 = []" by blast
    show ?thesis using True b0 f g by (simp add: encoder_step_def)
  next
    case False
    have "unat (buf_e e1 ! 0) < 254" using f(3) by simp
    from encoder_store_inv [OF f(2) this refl refl, of b]
    show ?thesis using True False f by (simp add: encoder_step_def Let_def)
  qed
next
  case nfe: False
  then have lt: "unat (buf_e e ! 0) < 254" using assms by (simp add: encoder_inv_def u8_fe)
  then have nff: "buf_e e ! 0 + 1 \<noteq> 0xff" by (simp add: u8_ff u8_succ)
  show ?thesis
  proof (cases "b = 0")
    case True
    from encoder_flush_inv [OF assms] obtain e1 where
      f: "encoder_flush e = ([(buf_e e ! 0 + 1) # pending_e e], e1)" "encoder_inv e1"
         "buf_e e1 ! 0 = 0" "pending_e e1 = []" by blast
    show ?thesis using True nfe nff f by (simp add: encoder_step_def)
  next
    case False
    from encoder_store_inv [OF assms lt refl refl, of b]
    show ?thesis using nfe nff False by (simp add: encoder_step_def Let_def)
  qed
qed

lemma encoder_stop_blocks:
  assumes "encoder_inv e"
  shows "\<exists>e'. encoder_stop e = Some ([(buf_e e ! 0 + 1) # pending_e e @ [0]], e') \<and> encoder_inv e' \<and> buf_e e' ! 0 = 0"
proof -
  obtain x rest where b: "buf_e e = x # rest" using assms by (cases "buf_e e") (auto simp: encoder_inv_def)
  show ?thesis using assms b
    by (simp add: encoder_stop_def encoder_reset_def encoder_inv_def pending_e_def u8_succ Let_def take_Suc_update)
qed

lemma encoder_sink_blocks:
  assumes "encoder_inv e"
  shows "\<exists>calls e'. encoder_sink bs e = Some (calls, e') \<and> encoder_inv e' \<and>
     concat (blocks bs (buf_e e ! 0 + 1) (pending_e e)) =
       concat calls @ (buf_e e' ! 0 + 1) # pending_e e'"
  using assms
proof (induction bs arbitrary: e)
  case Nil
  then show ?case by simp
next
  case (Cons b bs)
  from encoder_step_blocks [OF Cons.prems, of b bs] obtain c1 e1 where
    s: "encoder_step b e = Some (c1, e1)" "encoder_inv e1"
       "concat (blocks (b # bs) (buf_e e ! 0 + 1) (pending_e e)) =
          concat c1 @ concat (blocks bs (buf_e e1 ! 0 + 1) (pending_e e1))" by blast
  from Cons.IH [OF s(2)] obtain c2 e2 where
    r: "encoder_sink bs e1 = Some (c2, e2)" "encoder_inv e2"
       "concat (blocks bs (buf_e e1 ! 0 + 1) (pending_e e1)) =
          concat c2 @ (buf_e e2 ! 0 + 1) # pending_e e2" by blast
  show ?case using s r by simp
qed

section \<open>Stores into a bounded buffer\<close>

lemma length_overlay [simp]: "length (overlay out p xs) = length out"
  by (induction xs arbitrary: out p) auto

lemma nth_overlay:
  "j < length out \<Longrightarrow>
     overlay out p xs ! j = (if p \<le> j \<and> j < p + length xs then xs ! (j - p) else out ! j)"
proof (induction xs arbitrary: out p)
  case Nil
  then show ?case by auto
next
  case (Cons x xs)
  then show ?case
    by (auto simp: nth_Cons' nth_list_update)
qed

lemma overlay_append:
  "overlay out p (xs @ ys) = overlay (overlay out p xs) (p + length xs) ys"
  by (induction xs arbitrary: out p) auto

lemma overlay_covered:
  "p \<le> q \<Longrightarrow> q < p + length xs \<Longrightarrow> overlay (out[q := v]) p xs = overlay out p xs"
  by (rule nth_equalityI) (auto simp: nth_overlay nth_list_update)

lemma overlay_beyond: "length out \<le> p \<Longrightarrow> overlay out p xs = out"
  by (rule nth_equalityI) (auto simp: nth_overlay)

lemma store_at_eq: "store_at out p v = out[p := v]"
  by (simp add: store_at_def list_update_beyond)

lemma store_byte_eq: "store_byte out p v = (out[p := v], if p < length out then p + 1 else p)"
  by (simp add: store_byte_def list_update_beyond)

lemma update_virtual:
  "(if q < length out then p = q else length out \<le> p) \<Longrightarrow> out[p := v] = out[q := (v::u8)]"
  by (auto split: if_splits simp: list_update_beyond)

lemma length_buf_bytes: "length pending < length (buf_bytes bs code pending)"
proof (induction bs arbitrary: code pending)
  case Nil
  then show ?case by simp
next
  case (Cons b bs)
  show ?case
    using Cons.IH [of "pending @ [b]" "code + 1"] by auto
qed

section \<open>One iteration of the bounded-buffer encoder\<close>

lemma overlay_update_commute:
  assumes "q < p \<or> p + length xs \<le> q"
  shows "overlay (out[q := v]) p xs = (overlay out p xs)[q := v]"
proof (cases "q < length out")
  case True
  with assms show ?thesis
    by (intro nth_equalityI) (auto simp: nth_overlay nth_list_update)
next
  case False
  then show ?thesis by (simp add: list_update_beyond)
qed

lemma enc_buf_invD:
  assumes "enc_buf_inv slot pending (out, dl, dd, code, req)"
  shows "unat code = length pending + 1" "length pending < 254" "req = slot + length pending + 1"
    "out[dl := v] = out[slot := v]" "out[dd := v] = out[req := v]"
    "overlay out (slot + 1) pending = out" "code \<noteq> 0xff" "code \<noteq> 0"
    "(if dd < length out then dd + 1 else dd) = (if req < length out then req + 1 else dd)"
    "req < length out \<Longrightarrow> dd = req" "length out \<le> req \<Longrightarrow> length out \<le> dd"
  using assms by (auto simp: enc_buf_inv_def u8_ff u8_nonzero list_update_beyond split: if_splits)

lemma step_nonzero_cont:
  assumes inv: "enc_buf_inv slot pending (out, dl, dd, code, req)"
    and b: "b \<noteq> 0" and c: "code + 1 \<noteq> 0xff"
  shows "\<exists>dd'. encode_buf_step b m (out, dl, dd, code, req) =
            (out[req := b], dl, dd', code + 1, req + 1) \<and>
          enc_buf_inv slot (pending @ [b]) (out[req := b], dl, dd', code + 1, req + 1)"
proof -
  note d = enc_buf_invD [OF inv]
  have s: "unat (code + 1) = unat code + 1" using d(1,2) by (simp add: u8_succ)
  have st: "encode_buf_step b m (out, dl, dd, code, req) =
            (out[req := b], dl, (if dd < length out then dd + 1 else dd), code + 1, req + 1)"
    using b c by (simp add: encode_buf_step_def store_byte_eq d(5))
  have o: "overlay (out[req := b]) (slot + 1) (pending @ [b]) = out[req := b]"
    using d(3,6) by (simp add: overlay_append overlay_update_commute)
  have "enc_buf_inv slot (pending @ [b]) (out[req := b], dl, (if dd < length out then dd + 1 else dd), code + 1, req + 1)"
    using inv c s o d(1,2,3) unfolding enc_buf_inv_def
    by (auto simp: u8_ff split: if_splits)
  then show ?thesis using st by blast
qed

lemma step_zero:
  assumes inv: "enc_buf_inv slot pending (out, dl, dd, code, req)"
  shows "\<exists>dl' dd'. encode_buf_step 0 m (out, dl, dd, code, req) =
            (out[slot := code], dl', dd', 1, req + 1) \<and>
          enc_buf_inv req [] (out[slot := code], dl', dd', 1, req + 1)"
proof -
  note d = enc_buf_invD [OF inv]
  have st: "encode_buf_step 0 m (out, dl, dd, code, req) =
            (out[slot := code], dd, (if dd < length out then dd + 1 else dd), 1, req + 1)"
    by (simp add: encode_buf_step_def store_at_eq d(4))
  have "enc_buf_inv req [] (out[slot := code], dd, (if dd < length out then dd + 1 else dd), 1, req + 1)"
    using inv unfolding enc_buf_inv_def
    by (auto split: if_splits)
  then show ?thesis using st by blast
qed

lemma step_full:
  assumes inv: "enc_buf_inv slot pending (out, dl, dd, code, req)"
    and b: "b \<noteq> 0" and c: "code + 1 = 0xff"
  shows "\<exists>dl' dd'. encode_buf_step b True (out, dl, dd, code, req) =
            (out[req := b, slot := 0xff], dl', dd', 1, req + 2) \<and>
          enc_buf_inv (req + 1) [] (out[req := b, slot := 0xff], dl', dd', 1, req + 2)"
    and "\<exists>dl'. encode_buf_step b False (out, dl, dd, code, req) =
            (out[req := b, slot := 0xff], dl', dl', 1, req + 1) \<and>
            (if req + 1 < length out then dl' = req + 1 else length out \<le> dl')"
proof -
  note d = enc_buf_invD [OF inv]
  let ?dd1 = "if dd < length out then dd + 1 else dd"
  let ?out2 = "out[req := b, slot := 0xff]"
  have u: "(out[req := b])[dl := v] = (out[req := b])[slot := v]" for v
    using inv by (intro update_virtual) (auto simp: enc_buf_inv_def)
  have st: "encode_buf_step b True (out, dl, dd, code, req) =
            (?out2, ?dd1, (if ?dd1 < length out then ?dd1 + 1 else ?dd1), 1, req + 1 + 1)"
    using b c by (simp add: encode_buf_step_def store_byte_eq store_at_eq d(5) u)
  have "enc_buf_inv (req + 1) [] (?out2, ?dd1, (if ?dd1 < length out then ?dd1 + 1 else ?dd1), 1, req + 2)"
    using inv unfolding enc_buf_inv_def
    by (auto split: if_splits)
  then show "\<exists>dl' dd'. encode_buf_step b True (out, dl, dd, code, req) =
            (out[req := b, slot := 0xff], dl', dd', 1, req + 2) \<and>
          enc_buf_inv (req + 1) [] (out[req := b, slot := 0xff], dl', dd', 1, req + 2)"
    using st by auto
  have st2: "encode_buf_step b False (out, dl, dd, code, req) = (?out2, ?dd1, ?dd1, 1, req + 1)"
    using b c by (simp add: encode_buf_step_def store_byte_eq store_at_eq d(5) u)
  have "(if req + 1 < length out then ?dd1 = req + 1 else length out \<le> ?dd1)"
    using inv unfolding enc_buf_inv_def
    by (auto split: if_splits)
  then show "\<exists>dl'. encode_buf_step b False (out, dl, dd, code, req) =
            (out[req := b, slot := 0xff], dl', dl', 1, req + 1) \<and>
            (if req + 1 < length out then dl' = req + 1 else length out \<le> dl')"
    using st2 by auto
qed

section \<open>The bounded-buffer encoder stores the block structure\<close>

lemma blocks_ff: "bs \<noteq> [] \<Longrightarrow> blocks bs 0xff pending = [[0xff], pending] @ blocks bs 1 []"
  by (cases bs) auto

lemma overlay_header:
  assumes "overlay out (slot + 1) pending = out"
  shows "overlay out slot (c # pending) = out[slot := c]"
  using assms by (simp add: overlay_update_commute)

lemma overlay_full_block:
  assumes "overlay out (slot + 1) pending = out" "req = slot + length pending + 1"
  shows "overlay out slot (c # pending @ [b]) = out[req := b, slot := c]"
proof -
  have "overlay out slot (c # pending @ [b]) = (out[slot := c])[req := b]"
    using assms by (simp add: overlay_append overlay_update_commute)
  also have "\<dots> = out[req := b, slot := c]"
    using assms(2) by (simp add: list_update_swap)
  finally show ?thesis .
qed

lemma encode_buf_loop_bytes:
  assumes "enc_buf_inv slot pending (out, dl, dd, code, req)"
  shows "finish_buf (encode_buf_loop bs (out, dl, dd, code, req)) =
           (overlay out slot (buf_bytes bs code pending),
            slot + length (concat (blocks bs code pending)))"
  using assms
proof (induction bs arbitrary: slot pending out dl dd code req)
  case Nil
  note d = enc_buf_invD [OF Nil]
  show ?case
    using d(3) by (simp add: finish_buf_def store_at_eq d(4) overlay_header [OF d(6)]
        del: overlay.simps)
next
  case (Cons b bs)
  note inv = Cons.prems
  note d = enc_buf_invD [OF inv]
  show ?case
  proof (cases "b = 0")
    case True
    from step_zero [OF inv, of "bs \<noteq> []"] obtain dl' dd' where
      s: "encode_buf_step 0 (bs \<noteq> []) (out, dl, dd, code, req) = (out[slot := code], dl', dd', 1, req + 1)"
         "enc_buf_inv req [] (out[slot := code], dl', dd', 1, req + 1)" by blast
    have "overlay out slot ((code # pending) @ buf_bytes bs 1 []) =
           overlay (out[slot := code]) req (buf_bytes bs 1 [])"
      using d(3) by (simp only: overlay_append overlay_header [OF d(6)]) simp
    then show ?thesis
      using True s(1) Cons.IH [OF s(2)] d(3,7) by simp
  next
    case b: False
    show ?thesis
    proof (cases "code + 1 = 0xff")
      case False
      from step_nonzero_cont [OF inv b False, of "bs \<noteq> []"] obtain dd' where
        s: "encode_buf_step b (bs \<noteq> []) (out, dl, dd, code, req) = (out[req := b], dl, dd', code + 1, req + 1)"
           "enc_buf_inv slot (pending @ [b]) (out[req := b], dl, dd', code + 1, req + 1)" by blast
      have "overlay (out[req := b]) slot (buf_bytes bs (code + 1) (pending @ [b])) =
             overlay out slot (buf_bytes bs (code + 1) (pending @ [b]))"
        using d(3) length_buf_bytes [of "pending @ [b]" bs "code + 1"]
        by (intro overlay_covered) auto
      then show ?thesis
        using b False s(1) Cons.IH [OF s(2)] d(7) by simp
    next
      case True
      note f = step_full [OF inv b True]
      have o: "overlay out slot (((code + 1) # pending @ [b]) @ rest) =
               overlay (out[req := b, slot := 0xff]) (req + 1) rest" for rest
        using d(3) True by (simp only: overlay_append overlay_full_block [OF d(6,3)]) simp
      show ?thesis
      proof (cases "bs = []")
        case e: True
        from f(2) obtain dl' where
          s: "encode_buf_step b False (out, dl, dd, code, req) = (out[req := b, slot := 0xff], dl', dl', 1, req + 1)"
             "(if req + 1 < length out then dl' = req + 1 else length out \<le> dl')" by blast
        have "(out[req := b, slot := 0xff])[dl' := 1] = (out[req := b, slot := 0xff])[req + 1 := 1]"
          using s(2) by (intro update_virtual) simp
        then show ?thesis
          using b True e s(1) o [of "[1]"] d(3,7)
          by (simp add: finish_buf_def store_at_eq)
      next
        case ne: False
        from f(1) obtain dl' dd' where
          s: "encode_buf_step b True (out, dl, dd, code, req) = (out[req := b, slot := 0xff], dl', dd', 1, req + 2)"
             "enc_buf_inv (req + 1) [] (out[req := b, slot := 0xff], dl', dd', 1, req + 2)" by blast
        show ?thesis
          using b True ne s(1) Cons.IH [OF s(2)] o [of "buf_bytes bs 1 []"] d(3,7)
          by (simp add: blocks_ff)
      qed
    qed
  qed
qed

lemma enc_buf_inv_init: "enc_buf_inv 0 [] (out, 0, 1, 1, 1)"
  by (simp add: enc_buf_inv_def)

lemma cobs_encode_buf_bytes:
  "cobs_encode_buf inp out = (overlay out 0 (buf_bytes inp 1 []), length (encoded inp))"
  using encode_buf_loop_bytes [OF enc_buf_inv_init, of inp out]
  by (simp add: cobs_encode_buf_def finish_buf_def encoded_def cobs_encode_cb_blocks)

section \<open>Decoding one block with the callback decoder\<close>

lemma decode_loop_Nil: "decode_loop [] code block tot calls = (block, tot, calls)"
  by (subst decode_loop.simps) simp

lemma decode_loop_delim: "decode_loop (0 # src) code 0 tot calls = (0, tot, calls)"
  by (subst decode_loop.simps) (simp add: Let_def)

lemma decode_loop_code:
  "c \<noteq> 0 \<Longrightarrow> decode_loop (c # src) prev 0 tot calls =
     decode_loop src c (c - 1) (tot + length (implied_zero prev)) (calls @ zero_call prev)"
  by (subst decode_loop.simps) (simp add: Let_def implied_zero_def zero_call_def)

lemma decode_loop_data:
  assumes "block \<noteq> 0" "unat block = length ds"
  shows "decode_loop (ds @ rest) code block tot calls =
     decode_loop rest code 0 (tot + length ds) (calls @ data_call ds)"
proof -
  have ne: "ds \<noteq> []" using assms by (auto simp: unat_eq_0)
  have "block - of_nat (length ds) = 0" using assms(2) [symmetric] by simp
  then show ?thesis
    using ne assms by (subst decode_loop.simps) (simp add: Let_def data_call_def)
qed

lemma decode_loop_block:
  assumes "c \<noteq> 0" "length ds = unat c - 1"
  shows "decode_loop (c # ds @ rest) prev 0 tot calls =
     decode_loop rest c 0 (tot + length (implied_zero prev @ ds))
       (calls @ zero_call prev @ data_call ds)"
proof (cases "ds = []")
  case True
  then have "unat c = 1" using assms by (simp add: u8_nonzero) 
  then have "c = 1" by (simp add: word_unat_eq_iff)
  then show ?thesis using True by (simp add: decode_loop_code data_call_def)
next
  case False
  then have "c - 1 \<noteq> 0" "unat (c - 1) = length ds"
    using assms by (auto simp: unat_minus_one unat_eq_0 [symmetric] simp del: unat_eq_0)
  from decode_loop_data [OF this]
  show ?thesis using assms(1) by (simp add: decode_loop_code add.assoc)
qed

section \<open>The callback decoder inverts the encoding\<close>

lemma received_append [simp]: "received (xs @ ys) = received xs @ received ys"
  by (simp add: received_def)

lemma received_Nil [simp]: "received [] = []"
  by (simp add: received_def)

lemma received_zero_call [simp]: "received (zero_call prev) = implied_zero prev"
  by (simp add: received_def zero_call_def implied_zero_def)

lemma received_data_call [simp]: "received (data_call ds) = ds"
  by (simp add: received_def data_call_def)

lemma plain_zero_call [simp]: "list_all plain_call (zero_call prev)"
  by (simp add: zero_call_def plain_call_def)

lemma plain_data_call [simp]: "list_all plain_call (data_call ds)"
  by (simp add: data_call_def plain_call_def)

lemma implied_zero_ff [simp]: "implied_zero 0xff = []" "zero_call 0xff = []"
  by (simp_all add: implied_zero_def zero_call_def)

lemma implied_zero_other: "c \<noteq> 0xff \<Longrightarrow> implied_zero c = [0]"
  by (simp add: implied_zero_def)

lemma decode_loop_end:
  assumes "tail = [] \<or> (\<exists>t. tail = 0 # t)"
  shows "decode_loop tail code 0 tot calls = (0, tot, calls)"
  using assms by (auto simp: decode_loop_Nil decode_loop_delim)

lemma decode_blocks:
  assumes "unat code = length pending + 1" and "tail = [] \<or> (\<exists>t. tail = 0 # t)"
  shows "\<exists>C. decode_loop (concat (blocks bs code pending) @ tail) prev 0 tot calls =
              (0, tot + length (implied_zero prev @ pending @ bs), calls @ C) \<and>
            received C = implied_zero prev @ pending @ bs \<and> list_all plain_call C"
  using assms(1)
proof (induction bs arbitrary: code pending prev tot calls)
  case Nil
  have c: "code \<noteq> 0" "length pending = unat code - 1" using Nil by (auto simp: u8_nonzero)
  show ?case
    using decode_loop_block [OF c, of tail prev tot calls] decode_loop_end [OF assms(2)]
    by simp
next
  case (Cons b bs)
  have c: "code \<noteq> 0" "length pending = unat code - 1" using Cons.prems by (auto simp: u8_nonzero)
  let ?tot1 = "tot + length (implied_zero prev @ pending)"
  let ?calls1 = "calls @ zero_call prev @ data_call pending"
  have blk: "decode_loop (code # pending @ rest) prev 0 tot calls =
      decode_loop rest code 0 ?tot1 ?calls1" for rest
    by (rule decode_loop_block [OF c])
  have one: "unat (1::u8) = length ([]::u8 list) + 1" by simp
  show ?case
  proof (cases "b = 0")
    case True
    let ?X = "concat (blocks bs 1 [])"
    from Cons.IH [OF one] have ih: "\<exists>C. decode_loop (?X @ tail) p 0 t cs =
              (0, t + length (implied_zero p @ [] @ bs), cs @ C) \<and>
            received C = implied_zero p @ [] @ bs \<and> list_all plain_call C" for p t cs .
    show ?thesis
    proof (cases "code = 0xff")
      case ff: True
      have e: "concat (blocks (b # bs) code pending) @ tail = code # pending @ (1 # [] @ ?X @ tail)"
        using True ff by simp
      have "decode_loop (1 # [] @ ?X @ tail) code 0 ?tot1 ?calls1 =
            decode_loop (?X @ tail) 1 0 ?tot1 ?calls1"
        using decode_loop_block [of 1 "[]" "?X @ tail" code ?tot1 ?calls1] ff
        by (simp add: data_call_def)
      moreover from ih [of 1 ?tot1 ?calls1] obtain C where
        "decode_loop (?X @ tail) 1 0 ?tot1 ?calls1 = (0, ?tot1 + length (implied_zero 1 @ [] @ bs), ?calls1 @ C)"
        "received C = implied_zero 1 @ [] @ bs" "list_all plain_call C" by blast
      ultimately show ?thesis
        unfolding e blk using True by (simp add: implied_zero_other)
    next
      case nff: False
      have e: "concat (blocks (b # bs) code pending) @ tail = code # pending @ (?X @ tail)"
        using True nff by simp
      from ih [of code ?tot1 ?calls1] obtain C where
        "decode_loop (?X @ tail) code 0 ?tot1 ?calls1 = (0, ?tot1 + length (implied_zero code @ [] @ bs), ?calls1 @ C)"
        "received C = implied_zero code @ [] @ bs" "list_all plain_call C" by blast
      then show ?thesis
        unfolding e blk using True nff by (simp add: implied_zero_other)
    qed
  next
    case nz: False
    show ?thesis
    proof (cases "code = 0xff")
      case ff: True
      let ?X = "concat (blocks bs (1 + 1) [b])"
      have e: "concat (blocks (b # bs) code pending) @ tail = code # pending @ (?X @ tail)"
        using nz ff by simp
      have "unat (1 + 1 :: u8) = length [b] + 1" by simp
      from Cons.IH [OF this, of code ?tot1 ?calls1] obtain C where
        "decode_loop (?X @ tail) code 0 ?tot1 ?calls1 = (0, ?tot1 + length (implied_zero code @ [b] @ bs), ?calls1 @ C)"
        "received C = implied_zero code @ [b] @ bs" "list_all plain_call C" by blast
      then show ?thesis
        unfolding e blk using ff by simp
    next
      case nff: False
      have "unat (code + 1) = length (pending @ [b]) + 1"
        using Cons.prems nff u8_lt_256 [of code] by (simp add: u8_succ u8_ff)
      from Cons.IH [OF this, of prev tot calls]
      show ?thesis using nz nff by simp
    qed
  qed
qed

lemma cobs_decode_cb_encoded:
  assumes "tail = [] \<or> (\<exists>t. tail = 0 # t)"
  shows "\<exists>C. cobs_decode_cb (encoded P @ tail) = (C, length P) \<and> received C = P \<and> list_all plain_call C"
proof -
  have "unat (1::u8) = length ([]::u8 list) + 1" by simp
  from decode_blocks [OF this assms, of P "0xff" 0 "[]"]
  show ?thesis
    by (auto simp: cobs_decode_cb_def encoded_def cobs_encode_cb_blocks)
qed

section \<open>The bounded-buffer decoder inverts the encoding\<close>

lemma stores_Nil [simp]: "stores od [] = od"
  by (simp add: stores_def)

lemma stores_Cons [simp]: "stores (out, dst) (x # xs) = stores (store_byte out dst x) xs"
  by (simp add: stores_def)

lemma stores_append: "stores od (xs @ ys) = stores (stores od xs) ys"
  by (simp add: stores_def)

lemma stores_overlay:
  "dst \<le> length out \<Longrightarrow>
     stores (out, dst) xs = (overlay out dst xs, min (length out) (dst + length xs))"
proof (induction xs arbitrary: out dst)
  case Nil
  then show ?case by simp
next
  case (Cons x xs)
  show ?case
  proof (cases "dst < length out")
    case True
    then show ?thesis using Cons.IH [of "Suc dst" "out[dst := x]"]
      by (simp add: store_byte_def)
  next
    case False
    then have "dst = length out" using Cons.prems by simp
    then show ?thesis using Cons.IH [of dst out]
      by (simp add: store_byte_def overlay_beyond list_update_beyond)
  qed
qed

lemma decode_buf_loop_data:
  "unat block = length ds \<Longrightarrow>
     decode_buf_loop (ds @ rest) (out, dst, code, block, req) =
       decode_buf_loop rest (fst (stores (out, dst) ds), snd (stores (out, dst) ds), code, 0,
         req + length ds)"
proof (induction ds arbitrary: out dst block req)
  case Nil
  then show ?case by (simp add: unat_eq_0)
next
  case (Cons x xs)
  then have nz: "block \<noteq> 0" by auto
  then have u: "unat (block - 1) = length xs"
    using Cons.prems by (simp add: unat_minus_one)
  obtain o1 d1 where s: "store_byte out dst x = (o1, d1)" by (cases "store_byte out dst x")
  show ?case
    using nz s Cons.IH [OF u, of o1 d1 "req + 1"] by simp
qed

lemma decode_buf_loop_block:
  assumes "c \<noteq> 0" "length ds = unat c - 1"
  shows "decode_buf_loop (c # ds @ rest) (out, dst, prev, 0, req) =
     decode_buf_loop rest
       (fst (stores (out, dst) (implied_zero prev @ ds)),
        snd (stores (out, dst) (implied_zero prev @ ds)), c, 0,
        req + length (implied_zero prev @ ds))"
proof -
  have u: "unat (c - 1) = length ds" using assms by (simp add: unat_minus_one)
  obtain o1 d1 where s: "store_byte out dst 0 = (o1, d1)" by (cases "store_byte out dst 0")
  show ?thesis
    using assms(1) s decode_buf_loop_data [OF u, of rest]
    by (simp add: implied_zero_def Let_def)
qed

lemma decode_buf_loop_end:
  assumes "tail = [] \<or> (\<exists>t. tail = 0 # t)"
  shows "\<exists>c'. decode_buf_loop tail (out, dst, code, 0, req) = (out, dst, c', 0, req)"
  using assms by auto

lemma decode_buf_blocks:
  assumes "unat code = length pending + 1" and "tail = [] \<or> (\<exists>t. tail = 0 # t)"
  shows "\<exists>c'. decode_buf_loop (concat (blocks bs code pending) @ tail) (out, dst, prev, 0, req) =
     (fst (stores (out, dst) (implied_zero prev @ pending @ bs)),
      snd (stores (out, dst) (implied_zero prev @ pending @ bs)), c', 0,
      req + length (implied_zero prev @ pending @ bs))"
  using assms(1)
proof (induction bs arbitrary: code pending prev out dst req)
  case Nil
  have c: "code \<noteq> 0" "length pending = unat code - 1" using Nil by (auto simp: u8_nonzero)
  show ?case
    using decode_buf_loop_block [OF c, of tail out dst prev req]
      decode_buf_loop_end [OF assms(2)]
    by simp
next
  case (Cons b bs)
  have c: "code \<noteq> 0" "length pending = unat code - 1" using Cons.prems by (auto simp: u8_nonzero)
  let ?S = "stores (out, dst) (implied_zero prev @ pending)"
  let ?req1 = "req + length (implied_zero prev @ pending)"
  have blk: "decode_buf_loop (code # pending @ rest) (out, dst, prev, 0, req) =
      decode_buf_loop rest (fst ?S, snd ?S, code, 0, ?req1)" for rest
    by (rule decode_buf_loop_block [OF c])
  have one: "unat (1::u8) = length ([]::u8 list) + 1" by simp
  have S: "stores (fst ?S, snd ?S) xs = stores (out, dst) (implied_zero prev @ pending @ xs)" for xs
    by (simp add: stores_append [symmetric])
  show ?case
  proof (cases "b = 0")
    case True
    let ?X = "concat (blocks bs 1 [])"
    note ih = Cons.IH [OF one]
    show ?thesis
    proof (cases "code = 0xff")
      case ff: True
      have e: "concat (blocks (b # bs) code pending) @ tail = code # pending @ (1 # [] @ ?X @ tail)"
        using True ff by simp
      have "decode_buf_loop (1 # [] @ ?X @ tail) (fst ?S, snd ?S, code, 0, ?req1) =
            decode_buf_loop (?X @ tail) (fst ?S, snd ?S, 1, 0, ?req1)"
        using decode_buf_loop_block [of 1 "[]" "?X @ tail" "fst ?S" "snd ?S" code ?req1] ff
        by simp
      moreover from ih [of "fst ?S" "snd ?S" 1 ?req1] obtain c' where
        "decode_buf_loop (?X @ tail) (fst ?S, snd ?S, 1, 0, ?req1) =
          (fst (stores (fst ?S, snd ?S) (implied_zero 1 @ [] @ bs)),
           snd (stores (fst ?S, snd ?S) (implied_zero 1 @ [] @ bs)), c', 0,
           ?req1 + length (implied_zero 1 @ [] @ bs))" by blast
      ultimately show ?thesis
        unfolding e blk S using True by (simp add: implied_zero_other)
    next
      case nff: False
      have e: "concat (blocks (b # bs) code pending) @ tail = code # pending @ (?X @ tail)"
        using True nff by simp
      from ih [of "fst ?S" "snd ?S" code ?req1] obtain c' where
        "decode_buf_loop (?X @ tail) (fst ?S, snd ?S, code, 0, ?req1) =
          (fst (stores (fst ?S, snd ?S) (implied_zero code @ [] @ bs)),
           snd (stores (fst ?S, snd ?S) (implied_zero code @ [] @ bs)), c', 0,
           ?req1 + length (implied_zero code @ [] @ bs))" by blast
      then show ?thesis
        unfolding e blk S using True nff by (simp add: implied_zero_other)
    qed
  next
    case nz: False
    show ?thesis
    proof (cases "code = 0xff")
      case ff: True
      let ?X = "concat (blocks bs (1 + 1) [b])"
      have e: "concat (blocks (b # bs) code pending) @ tail = code # pending @ (?X @ tail)"
        using nz ff by simp
      have "unat (1 + 1 :: u8) = length [b] + 1" by simp
      from Cons.IH [OF this, of "fst ?S" "snd ?S" code ?req1] obtain c' where
        "decode_buf_loop (?X @ tail) (fst ?S, snd ?S, code, 0, ?req1) =
          (fst (stores (fst ?S, snd ?S) (implied_zero code @ [b] @ bs)),
           snd (stores (fst ?S, snd ?S) (implied_zero code @ [b] @ bs)), c', 0,
           ?req1 + length (implied_zero code @ [b] @ bs))" by blast
      then show ?thesis
        unfolding e blk S using ff by simp
    next
      case nff: False
      have "unat (code + 1) = length (pending @ [b]) + 1"
        using Cons.prems nff u8_lt_256 [of code] by (simp add: u8_succ u8_ff)
      from Cons.IH [OF this, of out dst prev req]
      show ?thesis using nz nff by simp
    qed
  qed
qed

lemma cobs_decode_buf_encoded:
  assumes "tail = [] \<or> (\<exists>t. tail = 0 # t)"
  shows "cobs_decode_buf (encoded P @ tail) out = (overlay out 0 P, length P)"
proof -
  have "unat (1::u8) = length ([]::u8 list) + 1" by simp
  from decode_buf_blocks [OF this assms, of P out 0 "0xff" 0]
  show ?thesis
    by (auto simp: cobs_decode_buf_def encoded_def cobs_encode_cb_blocks stores_overlay)
qed

section \<open>Properties of the block structure\<close>

lemma buf_bytes_blocks:
  "code \<noteq> 0xff \<Longrightarrow>
     \<exists>s. buf_bytes bs code pending = concat (blocks bs code pending) @ s \<and> (s = [] \<or> s = [1])"
proof (induction bs arbitrary: code pending)
  case Nil
  then show ?case by simp
next
  case (Cons b bs)
  have one: "(1::u8) \<noteq> 0xff" by simp
  show ?case
  proof (cases "b = 0")
    case True
    then show ?thesis using Cons.IH [OF one, of "[]"] Cons.prems by auto
  next
    case nz: False
    show ?thesis
    proof (cases "code + 1 = 0xff")
      case False
      then show ?thesis using Cons.IH [OF False, of "pending @ [b]"] Cons.prems nz by auto
    next
      case True
      show ?thesis
      proof (cases "bs = []")
        case e: True
        then show ?thesis using True nz Cons.prems by simp
      next
        case False
        then show ?thesis
          using True nz Cons.prems Cons.IH [OF one, of "[]"] by (auto simp: blocks_ff)
      qed
    qed
  qed
qed

lemma blocks_zero_free:
  "code \<noteq> 0 \<Longrightarrow> zero_free pending \<Longrightarrow> list_all zero_free (blocks bs code pending)"
proof (induction bs arbitrary: code pending)
  case Nil
  then show ?case by (simp add: zero_free_def)
next
  case (Cons b bs)
  have "code \<noteq> 0xff \<Longrightarrow> code + 1 \<noteq> 0"
    using u8_lt_256 [of code] by (simp add: u8_ff u8_nonzero u8_succ)
  then show ?case
    using Cons.prems Cons.IH [of 1 "[]"] Cons.IH [of "1 + 1" "[b]"] Cons.IH [of "code + 1" "pending @ [b]"]
    by (auto simp: zero_free_def)
qed

lemma blocks_data:
  "concat (data_chunks (blocks bs code pending)) = pending @ filter (\<lambda>b. b \<noteq> 0) bs"
  by (induction bs arbitrary: code pending) auto

lemma blocks_codes:
  "code \<noteq> 0 \<Longrightarrow> list_all code_chunk (code_chunks (blocks bs code pending))"
proof (induction bs arbitrary: code pending)
  case Nil
  then show ?case using u8_lt_256 [of code] by (simp add: code_chunk_def u8_nonzero)
next
  case (Cons b bs)
  have "code \<noteq> 0xff \<Longrightarrow> code + 1 \<noteq> 0"
    using u8_lt_256 [of code] by (simp add: u8_ff u8_nonzero u8_succ)
  then show ?case
    using Cons.prems Cons.IH [of 1 "[]"] Cons.IH [of "1 + 1" "[b]"]
      Cons.IH [of "code + 1" "pending @ [b]"] u8_lt_256 [of code]
    by (auto simp: code_chunk_def u8_nonzero)
qed

lemma take_overlay:
  "length xs \<le> length out \<Longrightarrow> take (length xs) (overlay out 0 (xs @ s)) = xs"
  by (rule nth_equalityI) (auto simp: nth_overlay nth_append)

lemma encoder_feed_bytes_sink: "encoder_feed_bytes bs e = encoder_sink bs e"
  by (induction bs arbitrary: e) (auto split: option.splits)

lemma encoder_flush_zero_free:
  assumes "encoder_inv e" "zero_free (pending_e e)"
  shows "list_all zero_free (fst (encoder_flush e))" "zero_free (pending_e (snd (encoder_flush e)))"
  using encoder_flush_inv [OF assms(1)] assms u8_lt_256 [of "buf_e e ! 0"]
  by (auto simp: zero_free_def encoder_inv_def u8_succ u8_nonzero)

section \<open>Zero-free output of the streaming encoder\<close>

lemma encoder_step_zero_free:
  assumes "encoder_inv e" "zero_free (pending_e e)" "encoder_step b e = Some (calls, e')"
  shows "list_all zero_free calls \<and> zero_free (pending_e e')"
proof -
  note f = encoder_flush_inv [OF assms(1)]
  have nz: "buf_e e ! 0 + 1 \<noteq> 0"
    using assms(1) by (simp add: encoder_inv_def u8_nonzero u8_succ)
  show ?thesis
  proof (cases "buf_e e ! 0 = 0xfe")
    case True
    from f obtain e1 where
      f1: "encoder_flush e = ([(buf_e e ! 0 + 1) # pending_e e], e1)" "encoder_inv e1"
         "buf_e e1 ! 0 = 0" "pending_e e1 = []" by blast
    show ?thesis
    proof (cases "b = 0")
      case b0: True
      from encoder_flush_inv [OF f1(2)] obtain e2 where
        g: "encoder_flush e1 = ([(buf_e e1 ! 0 + 1) # pending_e e1], e2)" "pending_e e2 = []" by blast
      show ?thesis using assms(2,3) True b0 f1 g nz
        by (auto simp: encoder_step_def zero_free_def)
    next
      case False
      have "unat (buf_e e1 ! 0) < 254" using f1(3) by simp
      from encoder_store_inv [OF f1(2) this refl refl, of b]
      show ?thesis using assms(2,3) True False f1 nz
        by (auto simp: encoder_step_def zero_free_def Let_def)
    qed
  next
    case nfe: False
    then have lt: "unat (buf_e e ! 0) < 254" using assms(1) by (simp add: encoder_inv_def u8_fe)
    show ?thesis
    proof (cases "b = 0")
      case True
      from f obtain e1 where
        f1: "encoder_flush e = ([(buf_e e ! 0 + 1) # pending_e e], e1)" "pending_e e1 = []" by blast
      show ?thesis using assms(2,3) True nfe f1 nz
        by (auto simp: encoder_step_def zero_free_def)
    next
      case False
      from encoder_store_inv [OF assms(1) lt refl refl, of b]
      show ?thesis using assms(2,3) nfe False
        by (auto simp: encoder_step_def zero_free_def Let_def)
    qed
  qed
qed

lemma encoder_sink_zero_free:
  assumes "encoder_inv e" "zero_free (pending_e e)" "encoder_sink bs e = Some (calls, e')"
  shows "list_all zero_free calls \<and> zero_free (pending_e e')"
  using assms
proof (induction bs arbitrary: e calls e')
  case Nil
  then show ?case by simp
next
  case (Cons b bs)
  from encoder_step_blocks [OF Cons.prems(1), of b bs] obtain c1 e1 where
    s: "encoder_step b e = Some (c1, e1)" "encoder_inv e1" by blast
  from encoder_sink_blocks [OF s(2), of bs] obtain c2 e2 where
    r: "encoder_sink bs e1 = Some (c2, e2)" by blast
  from encoder_step_zero_free [OF Cons.prems(1,2) s(1)]
  have z1: "list_all zero_free c1" "zero_free (pending_e e1)" by simp_all
  from Cons.IH [OF s(2) z1(2) r]
  have z2: "list_all zero_free c2" "zero_free (pending_e e2)" by simp_all
  show ?case using Cons.prems(3) s(1) r z1 z2 by auto
qed

lemma encoder_inv_reset:
  "length (buf_e e) = 256 \<Longrightarrow>
     encoder_inv (encoder_reset e) \<and> buf_e (encoder_reset e) ! 0 = 0 \<and>
     pending_e (encoder_reset e) = []"
  by (simp add: encoder_inv_def encoder_reset_def pending_e_def)

lemma encoder_run:
  assumes "length (buf_e e) = 256"
  shows "\<exists>calls e1 sc e2.
           encoder_sink P (encoder_reset e) = Some (calls, e1) \<and>
           encoder_stop e1 = Some ([sc @ [0]], e2) \<and>
           concat calls @ sc = encoded P \<and>
           list_all zero_free calls \<and> zero_free sc \<and> buf_e e2 ! 0 = 0 \<and> length (buf_e e2) = 256"
proof -
  note r = encoder_inv_reset [OF assms]
  from encoder_sink_blocks [of "encoder_reset e" P] r obtain calls e1 where
    s: "encoder_sink P (encoder_reset e) = Some (calls, e1)" "encoder_inv e1"
       "concat (blocks P 1 []) = concat calls @ (buf_e e1 ! 0 + 1) # pending_e e1"
    by auto
  from encoder_stop_blocks [OF s(2)] obtain e2 where
    t: "encoder_stop e1 = Some ([(buf_e e1 ! 0 + 1) # pending_e e1 @ [0]], e2)"
       "encoder_inv e2" "buf_e e2 ! 0 = 0" by blast
  have z: "list_all zero_free calls" "zero_free (pending_e e1)"
    using encoder_sink_zero_free [OF _ _ s(1)] r by (simp_all add: zero_free_def)
  have nz: "buf_e e1 ! 0 + 1 \<noteq> 0"
    using s(2) by (simp add: encoder_inv_def u8_nonzero u8_succ)
  have "zero_free ((buf_e e1 ! 0 + 1) # pending_e e1)"
    using z(2) nz by (auto simp: zero_free_def)
  moreover have "concat calls @ ((buf_e e1 ! 0 + 1) # pending_e e1) = encoded P"
    using s(3) by (simp add: encoded_def cobs_encode_cb_blocks)
  moreover have "encoder_stop e1 = Some ([((buf_e e1 ! 0 + 1) # pending_e e1) @ [0]], e2)"
    using t(1) by simp
  ultimately show ?thesis
    using s(1) t(2,3) z(1) unfolding encoder_inv_def by blast
qed

section \<open>The bytes in the output buffer of the bounded-buffer encoder\<close>

lemma encoded_zero_free: "zero_free (encoded P)"
  using blocks_zero_free [of 1 "[]" P]
  by (auto simp: encoded_def cobs_encode_cb_blocks zero_free_def list_all_iff)

lemma cobs_encode_buf_stored:
  "\<exists>s. cobs_encode_buf P out = (overlay out 0 (encoded P @ s), length (encoded P)) \<and>
        (s = [] \<or> s = [1])"
proof -
  have "(1::u8) \<noteq> 0xff" by simp
  from buf_bytes_blocks [OF this, of P "[]"] obtain s where
    "buf_bytes P 1 [] = concat (blocks P 1 []) @ s" "s = [] \<or> s = [1]" by blast
  then show ?thesis
    by (auto simp: cobs_encode_buf_bytes encoded_def cobs_encode_cb_blocks)
qed

lemma cobs_encode_buf_nonzero:
  assumes "i < length out"
  shows "fst (cobs_encode_buf P out) ! i \<noteq> out ! i \<Longrightarrow> fst (cobs_encode_buf P out) ! i \<noteq> 0"
    and "i < snd (cobs_encode_buf P out) \<Longrightarrow> fst (cobs_encode_buf P out) ! i \<noteq> 0"
proof -
  from cobs_encode_buf_stored [of P out] obtain s where
    s: "cobs_encode_buf P out = (overlay out 0 (encoded P @ s), length (encoded P))"
       "s = [] \<or> s = [1]" by blast
  have z: "0 \<notin> set (encoded P @ s)"
    using encoded_zero_free [of P] s(2) by (auto simp: zero_free_def)
  have n: "fst (cobs_encode_buf P out) ! i =
      (if i < length (encoded P @ s) then (encoded P @ s) ! i else out ! i)"
    using assms by (simp add: s(1) nth_overlay)
  have m: "j < length (encoded P @ s) \<Longrightarrow> (encoded P @ s) ! j \<noteq> 0" for j
    using z nth_mem [of j "encoded P @ s"] by metis
  show "fst (cobs_encode_buf P out) ! i \<noteq> out ! i \<Longrightarrow> fst (cobs_encode_buf P out) ! i \<noteq> 0"
    using n m [of i] by (auto split: if_splits)
  show "i < snd (cobs_encode_buf P out) \<Longrightarrow> fst (cobs_encode_buf P out) ! i \<noteq> 0"
    using n m [of i] by (auto simp: s(1) split: if_splits)
qed

lemma cobs_encode_buf_frame:
  assumes "snd (cobs_encode_buf P out) \<le> length out"
  shows "take (snd (cobs_encode_buf P out)) (fst (cobs_encode_buf P out)) = encoded P"
proof -
  from cobs_encode_buf_stored [of P out] obtain s where
    s: "cobs_encode_buf P out = (overlay out 0 (encoded P @ s), length (encoded P))" by blast
  show ?thesis using assms by (simp add: s take_overlay)
qed

lemma length_cobs_encode_buf: "length (fst (cobs_encode_buf P out)) = length out"
  by (simp add: cobs_encode_buf_bytes)

lemma take_overlay_plain:
  "length xs \<le> length out \<Longrightarrow> take (length xs) (overlay out 0 xs) = xs"
  using take_overlay [of xs out "[]"] by simp

section \<open>Claims about the encoders and the round trip\<close>

text \<open>
  Claim C6. The required size returned by the bounded-buffer encoder does not depend on
  the output buffer: for any buffer \<open>out\<close> it is the value returned for capacity 0, and
  it equals the total returned by the callback encoder, which is the number of bytes
  passed to the callback.
\<close>

theorem measurement_consistency:
  "snd (cobs_encode_buf P out) = snd (cobs_encode_buf P []) \<and>
   snd (cobs_encode_buf P out) = snd (cobs_encode_cb P) \<and>
   snd (cobs_encode_cb P) = length (concat (fst (cobs_encode_cb P)))"
  by (simp add: cobs_encode_buf_bytes encoded_def cobs_encode_cb_blocks)

text \<open>
  Claim C2. Start from the reset state of an encoder object, feed the payload \<open>P\<close> one
  byte at a time through \<open>sink\<close> and then call \<open>stop\<close>. No access leaves the buffer, and
  the bytes passed to the callback by the \<open>sink\<close> calls followed by the bytes passed by
  \<open>stop\<close> are the bytes the bulk callback encoder emits for \<open>P\<close> followed by one \<open>0x00\<close>.
  Afterwards the encoder is in its reset state again.
\<close>

theorem streaming_equivalence:
  assumes "length (buf_e e) = 256"
  shows "\<exists>calls e1 stop_calls e2.
           encoder_feed_bytes P (encoder_reset e) = Some (calls, e1) \<and>
           encoder_stop e1 = Some (stop_calls, e2) \<and>
           concat calls @ concat stop_calls = concat (fst (cobs_encode_cb P)) @ [0] \<and>
           buf_e e2 ! 0 = 0"
proof -
  from encoder_run [OF assms, of P] obtain calls e1 sc e2 where
    r: "encoder_sink P (encoder_reset e) = Some (calls, e1)"
       "encoder_stop e1 = Some ([sc @ [0]], e2)" "concat calls @ sc = encoded P"
       "buf_e e2 ! 0 = 0" by blast
  have "concat calls @ concat [sc @ [0]] = concat (fst (cobs_encode_cb P)) @ [0]"
    using r(3) by (simp add: encoded_def)
  then show ?thesis
    using r(1,2,4) unfolding encoder_feed_bytes_sink by blast
qed

theorem streaming_equivalence_witness:
  "length (buf_e encoder_init) = 256 \<and>
   (\<exists>calls e1 stop_calls e2.
      encoder_feed_bytes [1, 0, 2] (encoder_reset encoder_init) = Some (calls, e1) \<and>
      encoder_stop e1 = Some (stop_calls, e2) \<and>
      concat calls @ concat stop_calls = concat (fst (cobs_encode_cb [1, 0, 2])) @ [0] \<and>
      buf_e e2 ! 0 = 0)"
proof -
  have a: "length (buf_e encoder_init) = 256" by (simp add: encoder_init_def)
  show ?thesis using a streaming_equivalence [OF a, of "[1, 0, 2]"] by blast
qed

text \<open>
  Claim C7. Every chunk the bulk callback encoder passes to its callback is free of
  zero bytes; its code chunks are single bytes in \<open>[1, 255]\<close> and its data chunks are, in
  order, the nonzero bytes of the payload. The bounded-buffer encoder keeps the length
  of the buffer, every byte of the buffer it changes is nonzero afterwards, and so is
  every byte below the required size that lies in the buffer. Every chunk the streaming
  encoder passes to the callback from \<open>sink\<close> is free of zero bytes, and the single chunk
  passed by \<open>stop\<close> is a zero-free chunk followed by the one delimiter \<open>0x00\<close>.
\<close>

theorem zero_free_output:
  assumes "length (buf_e e) = 256"
  shows "list_all zero_free (fst (cobs_encode_cb P)) \<and>
         list_all code_chunk (code_chunks (fst (cobs_encode_cb P))) \<and>
         concat (data_chunks (fst (cobs_encode_cb P))) = filter (\<lambda>b. b \<noteq> 0) P \<and>
         length (fst (cobs_encode_buf P out)) = length out \<and>
         (\<forall>i < length out. fst (cobs_encode_buf P out) ! i \<noteq> out ! i \<longrightarrow>
                            fst (cobs_encode_buf P out) ! i \<noteq> 0) \<and>
         (\<forall>i < length out. i < snd (cobs_encode_buf P out) \<longrightarrow>
                            fst (cobs_encode_buf P out) ! i \<noteq> 0) \<and>
         (\<exists>calls e1 sc e2.
            encoder_sink P (encoder_reset e) = Some (calls, e1) \<and> list_all zero_free calls \<and>
            encoder_stop e1 = Some ([sc @ [0]], e2) \<and> zero_free sc)"
proof -
  have "list_all zero_free (fst (cobs_encode_cb P))"
    using blocks_zero_free [of 1 "[]" P] by (simp add: cobs_encode_cb_blocks zero_free_def)
  moreover have "list_all code_chunk (code_chunks (fst (cobs_encode_cb P)))"
    using blocks_codes [of 1 P "[]"] by (simp add: cobs_encode_cb_blocks)
  moreover have "concat (data_chunks (fst (cobs_encode_cb P))) = filter (\<lambda>b. b \<noteq> 0) P"
    by (simp add: cobs_encode_cb_blocks blocks_data)
  moreover note length_cobs_encode_buf [of P out]
  moreover have "\<forall>i < length out. fst (cobs_encode_buf P out) ! i \<noteq> out ! i \<longrightarrow>
                            fst (cobs_encode_buf P out) ! i \<noteq> 0"
    using cobs_encode_buf_nonzero(1) by blast
  moreover have "\<forall>i < length out. i < snd (cobs_encode_buf P out) \<longrightarrow>
                            fst (cobs_encode_buf P out) ! i \<noteq> 0"
    using cobs_encode_buf_nonzero(2) by blast
  moreover from encoder_run [OF assms, of P]
  have "\<exists>calls e1 sc e2.
            encoder_sink P (encoder_reset e) = Some (calls, e1) \<and> list_all zero_free calls \<and>
            encoder_stop e1 = Some ([sc @ [0]], e2) \<and> zero_free sc"
    by blast
  ultimately show ?thesis by blast
qed

theorem zero_free_output_witness:
  "length (buf_e encoder_init) = 256 \<and>
   list_all zero_free (fst (cobs_encode_cb [1, 0, 2])) \<and>
   concat (data_chunks (fst (cobs_encode_cb [1, 0, 2]))) = filter (\<lambda>b. b \<noteq> 0) [1, 0, 2] \<and>
   (1 :: nat) < length [0 :: u8, 0, 0, 0, 0] \<and>
   (1 :: nat) < snd (cobs_encode_buf [1, 0, 2] [0, 0, 0, 0, 0]) \<and>
   fst (cobs_encode_buf [1, 0, 2] [0, 0, 0, 0, 0]) ! 1 \<noteq> 0 \<and>
   (\<exists>calls e1 sc e2.
      encoder_sink [1, 0, 2] (encoder_reset encoder_init) = Some (calls, e1) \<and>
      list_all zero_free calls \<and>
      encoder_stop e1 = Some ([sc @ [0]], e2) \<and> zero_free sc)"
proof -
  have a: "length (buf_e encoder_init) = 256" by (simp add: encoder_init_def)
  have b: "(1 :: nat) < length [0 :: u8, 0, 0, 0, 0]" by simp
  have c: "(1 :: nat) < snd (cobs_encode_buf [1, 0, 2] [0, 0, 0, 0, 0])" by code_simp
  show ?thesis
    using a b c zero_free_output [OF a, of "[1, 0, 2]" "[0, 0, 0, 0, 0]"] by blast
qed

text \<open>
  Claim C1. For every payload \<open>P\<close>: the callback decoder, run on the bytes emitted by the
  callback encoder for \<open>P\<close>, with the delimiter \<open>0x00\<close> appended or without it, passes
  exactly the bytes of \<open>P\<close> to its callback, in invocations that carry data and
  \<open>left = 0\<close>, and returns the length of \<open>P\<close>. When the output buffer \<open>eout\<close> of the
  bounded-buffer encoder has room for the required size, its first required bytes are
  the bytes the callback encoder emits; the bounded-buffer decoder, run on them with or
  without the delimiter and with an output buffer \<open>dout\<close> that has room for \<open>P\<close>, leaves
  \<open>P\<close> in the first bytes of \<open>dout\<close> and returns the length of \<open>P\<close>.
\<close>

theorem round_trip:
  assumes "snd (cobs_encode_buf P eout) \<le> length eout" and "length P \<le> length dout"
  shows "received (fst (cobs_decode_cb (encoded P @ [0]))) = P \<and>
         snd (cobs_decode_cb (encoded P @ [0])) = length P \<and>
         list_all plain_call (fst (cobs_decode_cb (encoded P @ [0]))) \<and>
         received (fst (cobs_decode_cb (encoded P))) = P \<and>
         snd (cobs_decode_cb (encoded P)) = length P \<and>
         list_all plain_call (fst (cobs_decode_cb (encoded P))) \<and>
         take (snd (cobs_encode_buf P eout)) (fst (cobs_encode_buf P eout)) = encoded P \<and>
         take (length P)
           (fst (cobs_decode_buf
                  (take (snd (cobs_encode_buf P eout)) (fst (cobs_encode_buf P eout)) @ [0])
                  dout)) = P \<and>
         snd (cobs_decode_buf
                (take (snd (cobs_encode_buf P eout)) (fst (cobs_encode_buf P eout)) @ [0])
                dout) = length P \<and>
         take (length P)
           (fst (cobs_decode_buf
                  (take (snd (cobs_encode_buf P eout)) (fst (cobs_encode_buf P eout)))
                  dout)) = P \<and>
         snd (cobs_decode_buf
                (take (snd (cobs_encode_buf P eout)) (fst (cobs_encode_buf P eout)))
                dout) = length P"
proof -
  have t1: "[0::u8] = [] \<or> (\<exists>t. [0::u8] = 0 # t)" by simp
  have t2: "([]::u8 list) = [] \<or> (\<exists>t. ([]::u8 list) = 0 # t)" by simp
  from cobs_decode_cb_encoded [OF t1, of P] obtain C1 where
    c1: "cobs_decode_cb (encoded P @ [0]) = (C1, length P)" "received C1 = P"
        "list_all plain_call C1" by blast
  from cobs_decode_cb_encoded [OF t2, of P] obtain C2 where
    c2: "cobs_decode_cb (encoded P) = (C2, length P)" "received C2 = P"
        "list_all plain_call C2" by auto
  note f = cobs_encode_buf_frame [OF assms(1)]
  have b1: "cobs_decode_buf (encoded P @ [0]) dout = (overlay dout 0 P, length P)"
    by (rule cobs_decode_buf_encoded [OF t1])
  have b2: "cobs_decode_buf (encoded P) dout = (overlay dout 0 P, length P)"
    using cobs_decode_buf_encoded [OF t2, of P dout] by simp
  show ?thesis
    unfolding f c1 c2 b1 b2 using c1(2,3) c2(2,3) take_overlay_plain [OF assms(2)] by simp
qed

lemma enc_buf_room_example:
  "snd (cobs_encode_buf [1, 0, 2] [0, 0, 0, 0, 0]) \<le> length [0 :: u8, 0, 0, 0, 0]"
  by code_simp

theorem round_trip_witness:
  "snd (cobs_encode_buf [1, 0, 2] [0, 0, 0, 0, 0]) \<le> length [0 :: u8, 0, 0, 0, 0] \<and>
   length [1 :: u8, 0, 2] \<le> length [0 :: u8, 0, 0] \<and>
   received (fst (cobs_decode_cb (encoded [1, 0, 2] @ [0]))) = [1, 0, 2] \<and>
   snd (cobs_decode_cb (encoded [1, 0, 2])) = length [1 :: u8, 0, 2] \<and>
   take (length [1 :: u8, 0, 2])
     (fst (cobs_decode_buf
            (take (snd (cobs_encode_buf [1, 0, 2] [0, 0, 0, 0, 0]))
               (fst (cobs_encode_buf [1, 0, 2] [0, 0, 0, 0, 0])) @ [0])
            [0, 0, 0])) = [1, 0, 2]"
proof -
  have b: "length [1 :: u8, 0, 2] \<le> length [0 :: u8, 0, 0]" by simp
  show ?thesis
    using enc_buf_room_example b round_trip [OF enc_buf_room_example b] by blast
qed

end
